theory Spec2Isabelle
  imports Main "HOL-Library.Multiset" "HOL-Library.AList"
begin

section \<open>String helpers of the Python runtime\<close>

text \<open>
  Every call of \<^verbatim>\<open>str.replace\<close> in \<^verbatim>\<open>webview/util.py\<close> that is modelled here
  replaces a pattern of exactly one character. Replacing a one-character pattern
  scans the string once and substitutes each occurrence, so it is a character-wise
  substitution. Strings are lists of characters; nothing below depends on the size
  of the alphabet.
\<close>

definition str_replace :: "char \<Rightarrow> string \<Rightarrow> string \<Rightarrow> string" where
  "str_replace old new s = concat (map (\<lambda>c. if c = old then new else [c]) s)"

definition startswith :: "string \<Rightarrow> string \<Rightarrow> bool" where
  "startswith s p = (take (length p) s = p)"

text \<open>
  \<^verbatim>\<open>s.rfind(c)\<close> for a one-character pattern: the index of the last occurrence,
  or \<open>-1\<close>.
\<close>

definition rfind :: "string \<Rightarrow> char \<Rightarrow> int" where
  "rfind s c =
     (if c \<in> set s then int (length s) - 1 - int (length (takeWhile (\<lambda>x. x \<noteq> c) (rev s)))
      else - 1)"

text \<open>
  \<^verbatim>\<open>os.path.basename\<close> and \<^verbatim>\<open>os.path.splitext\<close> in their POSIX form
  (\<^verbatim>\<open>posixpath\<close>, \<^verbatim>\<open>genericpath._splitext\<close>):
  \<^verbatim>\<open>
  def basename(p):
      i = p.rfind('/') + 1
      return p[i:]

  def _splitext(p, sep, altsep, extsep):
      sepIndex = p.rfind(sep)
      dotIndex = p.rfind(extsep)
      if dotIndex > sepIndex:
          filenameIndex = sepIndex + 1
          while filenameIndex < dotIndex:
              if p[filenameIndex:filenameIndex+1] != extsep:
                  return p[:dotIndex], p[dotIndex:]
              filenameIndex += 1
      return p, p[:0]
  \<close>
\<close>

definition basename :: "string \<Rightarrow> string" where
  "basename p = drop (nat (rfind p (CHR ''/'') + 1)) p"

definition splitext :: "string \<Rightarrow> string \<times> string" where
  "splitext p =
     (let sepIndex = rfind p (CHR ''/'');
          dotIndex = rfind p (CHR ''.'')
      in if dotIndex > sepIndex \<and>
            list_ex (\<lambda>i. p ! i \<noteq> CHR ''.'') [nat (sepIndex + 1) ..< nat dotIndex]
         then (take (nat dotIndex) p, drop (nat dotIndex) p)
         else (p, []))"

section \<open>Ordering of the script fragments: \<^verbatim>\<open>sort_js_files\<close>\<close>

text \<open>
  \<^verbatim>\<open>
  def sort_js_files(js_files: list) -> list:
      LOAD_ORDER = { 'polyfill': 0, 'api': 1, 'finish': 99 }
      ordered_js_files = []
      remaining_js_files = []
      for file in js_files:
          basename = os.path.splitext(os.path.basename(file))[0]
          if basename not in LOAD_ORDER:
              ordered_js_files.append(file)
          else:
              remaining_js_files.append((basename, file))
      for basename, file in sorted(remaining_js_files, key=lambda x: LOAD_ORDER[x[0]]):
          ordered_js_files.insert(LOAD_ORDER[basename], file)
      return ordered_js_files
  \<close>
\<close>

definition LOAD_ORDER :: "string \<rightharpoonup> nat" where
  "LOAD_ORDER = [''polyfill'' \<mapsto> 0, ''api'' \<mapsto> 1, ''finish'' \<mapsto> 99]"

definition file_basename :: "string \<Rightarrow> string" where
  "file_basename file = fst (splitext (basename file))"

text \<open>\<^verbatim>\<open>list.insert(i, x)\<close> for \<open>i \<ge> 0\<close>: an index past the end appends.\<close>

definition list_insert :: "nat \<Rightarrow> 'a \<Rightarrow> 'a list \<Rightarrow> 'a list" where
  "list_insert i x xs = take i xs @ x # drop i xs"

text \<open>The first loop: the pair (\<open>ordered_js_files\<close>, \<open>remaining_js_files\<close>).\<close>

fun split_js_files ::
  "string list \<Rightarrow> string list \<times> (string \<times> string) list \<Rightarrow> string list \<times> (string \<times> string) list"
where
  "split_js_files [] acc = acc"
| "split_js_files (file # files) (ordered, remaining) =
     (if LOAD_ORDER (file_basename file) = None
      then split_js_files files (ordered @ [file], remaining)
      else split_js_files files (ordered, remaining @ [(file_basename file, file)]))"

text \<open>The second loop, over the sorted pairs.\<close>

fun insert_js_files :: "(string \<times> string) list \<Rightarrow> string list \<Rightarrow> string list" where
  "insert_js_files [] ordered = ordered"
| "insert_js_files ((b, file) # rest) ordered =
     insert_js_files rest (list_insert (the (LOAD_ORDER b)) file ordered)"

definition sort_js_files :: "string list \<Rightarrow> string list" where
  "sort_js_files js_files =
     (case split_js_files js_files ([], []) of
        (ordered, remaining) \<Rightarrow>
          insert_js_files (sort_key (\<lambda>x. the (LOAD_ORDER (fst x))) remaining) ordered)"

text \<open>A file is unordered when its base name is not a key of \<^verbatim>\<open>LOAD_ORDER\<close>.\<close>

definition unordered_js :: "string \<Rightarrow> bool" where
  "unordered_js f = (LOAD_ORDER (file_basename f) = None)"

text \<open>
  The loop of \<^verbatim>\<open>load_js_files\<close> over the ordered files. Reading a file and
  substituting its parameters (\<^verbatim>\<open>content % params\<close>) is the parameter
  \<open>render\<close>, applied to the path and the base name; the list of files found by
  \<^verbatim>\<open>glob\<close> is an argument.
  \<^verbatim>\<open>
  for file in ordered_js_files:
      with open(file, 'r') as f:
          name = os.path.splitext(os.path.basename(file))[0]
          content = f.read()
          params = {}
          if name == 'api':
              params = {...}
          elif name == 'customize':
              params = {...}
          elif name == 'polyfill' and platform != 'mshtml':
              continue
          js_code += content % params
  return js_code
  \<close>
\<close>

fun load_js_loop :: "string \<Rightarrow> (string \<Rightarrow> string \<Rightarrow> string) \<Rightarrow> string list \<Rightarrow> string \<Rightarrow> string" where
  "load_js_loop platform render [] js_code = js_code"
| "load_js_loop platform render (file # files) js_code =
     (let name = file_basename file in
      if name = ''api'' then load_js_loop platform render files (js_code @ render file name)
      else if name = ''customize'' then load_js_loop platform render files (js_code @ render file name)
      else if name = ''polyfill'' \<and> platform \<noteq> ''mshtml'' then load_js_loop platform render files js_code
      else load_js_loop platform render files (js_code @ render file name))"

definition load_js_files :: "string \<Rightarrow> (string \<Rightarrow> string \<Rightarrow> string) \<Rightarrow> string list \<Rightarrow> string" where
  "load_js_files platform render js_files =
     load_js_loop platform render (sort_js_files js_files) []"

text \<open>
  A directory of 101 script files: the three named fragments and 98 others
  (\<^verbatim>\<open>/j/b0.js\<close> to \<^verbatim>\<open>/j/l7.js\<close>).
\<close>

definition many_js_files :: "string list" where
  "many_js_files =
     [''/j/polyfill.js'', ''/j/api.js'', ''/j/finish.js''] @
     take 98 (concat (map (\<lambda>a. map (\<lambda>b. ''/j/'' @ [a, b] @ ''.js'') ''0123456789'') ''bcdeghijkl''))"

section \<open>Escaping: \<^verbatim>\<open>escape_string\<close>\<close>

text \<open>
  \<^verbatim>\<open>
  def escape_string(string: str) -> str:
      return (
          string.replace('\\', '\\\\').replace('"', r"\"").replace('\n', r'\n').replace('\r', r'\r')
      )
  \<close>
\<close>

definition escape_string :: "string \<Rightarrow> string" where
  "escape_string s =
     str_replace (CHR 0x0D) [CHR 0x5C, CHR ''r'']
       (str_replace (CHR 0x0A) [CHR 0x5C, CHR ''n'']
         (str_replace (CHR 0x22) [CHR 0x5C, CHR 0x22]
           (str_replace (CHR 0x5C) [CHR 0x5C, CHR 0x5C] s)))"

text \<open>The same function, one character at a time.\<close>

definition escape_char :: "char \<Rightarrow> string" where
  "escape_char c =
     (if c = CHR 0x5C then [CHR 0x5C, CHR 0x5C]
      else if c = CHR 0x22 then [CHR 0x5C, CHR 0x22]
      else if c = CHR 0x0A then [CHR 0x5C, CHR ''n'']
      else if c = CHR 0x0D then [CHR 0x5C, CHR ''r'']
      else [c])"

section \<open>Logging\<close>

text \<open>
  The module-level loggers only receive records; a log is the list of records written
  so far, each with the level of the call (\<^verbatim>\<open>logger.exception\<close> writes at level
  ERROR with a traceback and is kept apart).
\<close>

datatype log_record = LogError string | LogWarning string | LogException string

section \<open>DOM event subscriptions: \<^verbatim>\<open>webview/dom/event.py\<close>\<close>

text \<open>
  \<^verbatim>\<open>
  class DOMEvent:
      def __init__(self, event, window: Window, element: Element) -> None:
          self.event = event
          self.__element = element
          self._items: list = []

      def __isub__(self, item):
          if item in self._items:
              self._items.remove(item)
              self.__element.off(self.event, item)
          else:
              logger.warning(f'Event handler {item} not found')
          return self
  \<close>
  The class \<^verbatim>\<open>Element\<close> lives in \<^verbatim>\<open>webview/dom/element.py\<close>; its state (which
  holds the element's event-handler registry) is the type \<open>'el\<close>, and its method
  \<^verbatim>\<open>off\<close> is the parameter \<open>off\<close>, which returns the element after the call or
  the exception it raises; the fields \<open>event_of\<close>, \<open>element_of\<close> and \<open>items_of\<close>
  are \<^verbatim>\<open>event\<close>, \<^verbatim>\<open>__element\<close> and \<^verbatim>\<open>_items\<close>. \<open>str_of\<close> is the text of a handler inside the f-string.
\<close>

record ('h, 'el) DOMEvent =
  event_of :: string
  element_of :: 'el
  items_of :: "'h list"

definition DOMEvent_init :: "string \<Rightarrow> 'el \<Rightarrow> ('h, 'el) DOMEvent" where
  "DOMEvent_init ev el = \<lparr>event_of = ev, element_of = el, items_of = []\<rparr>"

text \<open>
  The result is the exception that escapes (if any), the object after the call and
  the log after the call. \<^verbatim>\<open>list.remove\<close> deletes the first equal entry.
\<close>

definition DOMEvent_isub ::
  "('el \<Rightarrow> string \<Rightarrow> 'h \<Rightarrow> 'x + 'el) \<Rightarrow> ('h \<Rightarrow> string) \<Rightarrow>
   ('h, 'el) DOMEvent \<Rightarrow> log_record list \<Rightarrow> 'h \<Rightarrow>
   'x option \<times> ('h, 'el) DOMEvent \<times> log_record list"
where
  "DOMEvent_isub off str_of self logs item =
     (if item \<in> set (items_of self) then
        (let self1 = self\<lparr>items_of := remove1 item (items_of self)\<rparr> in
         case off (element_of self1) (event_of self1) item of
           Inl e \<Rightarrow> (Some e, self1, logs)
         | Inr el \<Rightarrow> (None, self1\<lparr>element_of := el\<rparr>, logs))
      else (None, self, logs @ [LogWarning (''Event handler '' @ str_of item @ '' not found'')]))"

section \<open>Python values and the host runtime\<close>

text \<open>
  Values that cross the bridge or live on the host side: the JSON-like values, and
  host objects (functions, bound methods, classes, instances), which are opaque. A host
  object is named by a number: two numbers name two objects, so equality of these
  values is identity of objects (\<^verbatim>\<open>is\<close>). What \<^verbatim>\<open>==\<close> answers for two objects
  is decided by their classes and is asked of the host. Floats are left out; no
  modelled code inspects one.
\<close>

datatype pyval =
    PNone
  | PBool bool
  | PInt int
  | PStr string
  | PList "pyval list"
  | PDict "(string \<times> pyval) list"
  | PObj nat

text \<open>
  An exception raised by host or library code, as the bridge reads it:
  \<^verbatim>\<open>str(e)\<close>, \<^verbatim>\<open>type(e).__name__\<close> and \<^verbatim>\<open>traceback.format_exc()\<close>. Where
  nothing else is said it stands for an instance of \<^verbatim>\<open>Exception\<close>, the class that
  the handlers of the bridge catch.
\<close>

datatype exn = Exn (exn_message: string) (exn_name: string) (exn_stack: string)

text \<open>
  How a callback called by the dispatcher itself ends: whatever it raises leaves the
  dispatcher, so one constructor stands for every exception.
\<close>

datatype outcome = Returned pyval | Raised exn

text \<open>
  How the call \<^verbatim>\<open>func(*func_params)\<close> made on a worker thread ends. The handler of
  the thread is \<^verbatim>\<open>except Exception\<close>: it catches an instance of \<^verbatim>\<open>Exception\<close>
  (\<open>Raises\<close>) and lets pass an exception outside that class, such as
  \<^verbatim>\<open>SystemExit\<close> or \<^verbatim>\<open>KeyboardInterrupt\<close> (\<open>Aborts\<close>). A call that blocks for
  ever does not end (\<open>Hangs\<close>); the thread has no time limit.
\<close>

datatype run = Returns pyval | Raises exn | Aborts exn | Hangs

text \<open>
  The payload of a DOM event as the boundary protocol fixes it:
  \<^verbatim>\<open>{type, dataTransfer?: {files?: [{name, ...}]}}\<close>, sent together with the
  \<^verbatim>\<open>nodeId\<close> of the target element. \<^verbatim>\<open>pywebviewFullPath\<close> is the key that the
  relay adds to a file descriptor.
\<close>

record file_desc =
  file_name :: string
  pywebviewFullPath :: "string option"

record data_transfer =
  dt_files :: "file_desc list option"

record dom_event =
  event_type :: string
  dataTransfer :: "data_transfer option"

text \<open>
  The argument \<^verbatim>\<open>param\<close> of \<^verbatim>\<open>js_bridge_call\<close>: a JSON value, or the dictionary
  \<^verbatim>\<open>{'event': event, 'nodeId': node_id}\<close> of the event intake.
\<close>

datatype param = Value pyval | EventPayload dom_event string

text \<open>
  A thread is recorded with its target and the values the target closes over or
  receives: \<^verbatim>\<open>Thread(target=_call)\<close> with \<^verbatim>\<open>func\<close>, \<^verbatim>\<open>func_params\<close>,
  \<^verbatim>\<open>func_name\<close> and \<^verbatim>\<open>value_id\<close>; \<^verbatim>\<open>Thread(target=handler, args=(event,))\<close>.
\<close>

datatype thread =
    CallThread pyval param string string
  | HandlerThread pyval dom_event

text \<open>
  What the modelled code asks of the Python runtime, the standard library and the host
  application. Each field is the call named in its comment. A call that runs code of
  a host object (\<^verbatim>\<open>dir\<close>, \<^verbatim>\<open>getattr\<close>, \<^verbatim>\<open>==\<close>) or reads a signature
  can raise, and returns the exception on the left. \<^verbatim>\<open>getattr(obj, name)\<close> raises
  \<^verbatim>\<open>AttributeError\<close> for a missing attribute, and whatever a property raises.
  \<open>py_eq\<close> is consulted for two values that are not the same object only.
  \<open>thread_start\<close> is the outcome of creating and starting the worker thread of a
  call: nothing, or the exception raised by \<^verbatim>\<open>thread.start()\<close>, which the
  dispatcher catches. The threads of event handlers are started outside any handler of
  exceptions; starting them is taken to succeed.
\<close>

record host =
  py_dir :: "pyval \<Rightarrow> exn + string list"  \<comment> \<open>\<^verbatim>\<open>dir(obj)\<close>\<close>
  py_getattr :: "pyval \<Rightarrow> string \<Rightarrow> exn + pyval"  \<comment> \<open>\<^verbatim>\<open>getattr(obj, name)\<close>\<close>
  py_is_attribute_error :: "exn \<Rightarrow> bool"  \<comment> \<open>\<^verbatim>\<open>isinstance(e, AttributeError)\<close>\<close>
  py_eq :: "pyval \<Rightarrow> pyval \<Rightarrow> exn + bool"  \<comment> \<open>\<^verbatim>\<open>bool(a == b)\<close>\<close>
  py_bool :: "pyval \<Rightarrow> bool"  \<comment> \<open>\<^verbatim>\<open>bool(obj)\<close> of a host object\<close>
  py_ismethod :: "pyval \<Rightarrow> bool"  \<comment> \<open>\<^verbatim>\<open>inspect.ismethod(obj)\<close>\<close>
  py_isclass :: "pyval \<Rightarrow> bool"  \<comment> \<open>\<^verbatim>\<open>inspect.isclass(obj)\<close>\<close>
  py_callable :: "pyval \<Rightarrow> bool"  \<comment> \<open>\<^verbatim>\<open>callable(obj)\<close>\<close>
  py_argspec :: "pyval \<Rightarrow> exn + string list"  \<comment> \<open>\<^verbatim>\<open>inspect.getfullargspec(func).args\<close>\<close>
  py_call :: "pyval \<Rightarrow> param \<Rightarrow> run"  \<comment> \<open>\<^verbatim>\<open>func(*func_params)\<close>\<close>
  py_call1 :: "pyval \<Rightarrow> pyval \<Rightarrow> outcome"  \<comment> \<open>\<^verbatim>\<open>callback(value)\<close>\<close>
  py_str :: "pyval \<Rightarrow> string"  \<comment> \<open>\<^verbatim>\<open>'{0}'.format(value)\<close>\<close>
  json_dumps :: "pyval \<Rightarrow> exn + string"  \<comment> \<open>\<^verbatim>\<open>json.dumps(value)\<close>\<close>
  json_loads :: "pyval \<Rightarrow> exn + pyval"  \<comment> \<open>\<^verbatim>\<open>json.loads(param)\<close>\<close>
  unquote :: "string \<Rightarrow> string"  \<comment> \<open>\<^verbatim>\<open>urllib.parse.unquote(s)\<close>\<close>
  thread_start :: "thread \<Rightarrow> exn option"  \<comment> \<open>\<^verbatim>\<open>Thread(target=_call).start()\<close>\<close>

text \<open>
  Truth value of an operand of \<^verbatim>\<open>or\<close>. A host object is true unless its class
  defines \<^verbatim>\<open>__bool__\<close> or \<^verbatim>\<open>__len__\<close> otherwise.
\<close>

fun truthy :: "host \<Rightarrow> pyval \<Rightarrow> bool" where
  "truthy h PNone = False"
| "truthy h (PBool b) = b"
| "truthy h (PInt i) = (i \<noteq> 0)"
| "truthy h (PStr s) = (s \<noteq> [])"
| "truthy h (PList xs) = (xs \<noteq> [])"
| "truthy h (PDict kvs) = (kvs \<noteq> [])"
| "truthy h (PObj n) = py_bool h (PObj n)"

text \<open>
  The two other forms of attribute access, from \<^verbatim>\<open>getattr(obj, name)\<close>:
  \<^verbatim>\<open>getattr(obj, name, None)\<close> and \<^verbatim>\<open>hasattr(obj, name)\<close> catch
  \<^verbatim>\<open>AttributeError\<close> and nothing else.
\<close>

definition getattr_default :: "host \<Rightarrow> pyval \<Rightarrow> string \<Rightarrow> exn + pyval" where
  "getattr_default h obj name =
     (case py_getattr h obj name of
        Inr v \<Rightarrow> Inr v
      | Inl e \<Rightarrow> if py_is_attribute_error h e then Inr PNone else Inl e)"

definition py_hasattr :: "host \<Rightarrow> pyval \<Rightarrow> string \<Rightarrow> exn + bool" where
  "py_hasattr h obj name =
     (case py_getattr h obj name of
        Inr v \<Rightarrow> Inr True
      | Inl e \<Rightarrow> if py_is_attribute_error h e then Inr False else Inl e)"

section \<open>The call dispatcher: \<^verbatim>\<open>js_bridge_call\<close>\<close>

record element =
  event_handlers :: "string \<rightharpoonup> pyval list"  \<comment> \<open>\<^verbatim>\<open>element._event_handlers\<close>\<close>

text \<open>
  The state the dispatcher reads and writes: the window (\<^verbatim>\<open>_js_api\<close>,
  \<^verbatim>\<open>_functions\<close>, \<^verbatim>\<open>_callbacks\<close>, \<^verbatim>\<open>dom._elements\<close>), the module-level
  \<^verbatim>\<open>_dnd_state['paths']\<close> (pairs of a display name and a path, written by the native
  drop hook), the log, and the record of what it did: the threads started, the
  arguments of \<^verbatim>\<open>window.move\<close>, the callbacks invoked with their argument.
\<close>

record world =
  js_api :: pyval
  window_functions :: "(string \<times> pyval) list"
  callbacks :: "string \<rightharpoonup> pyval"
  elements :: "string \<rightharpoonup> element"
  dnd_paths :: "(string \<times> string) list"
  log :: "log_record list"
  threads :: "thread list"
  moves :: "param list"
  invoked :: "(pyval \<times> pyval) list"

text \<open>
  What escapes from \<^verbatim>\<open>js_bridge_call\<close>: the \<^verbatim>\<open>KeyError\<close> of a dictionary
  subscript, an exception raised by host or library code that no handler catches, or
  the error of a payload whose shape does not fit the privileged name.
\<close>

datatype error = KeyError string | Propagated exn | BadPayload









text \<open>
  \<^verbatim>\<open>
  def get_nested_attribute(obj: object, attr_str: str):
      attributes = attr_str.split('.')
      for attr in attributes:
          obj = getattr(obj, attr, None)
          if obj is None:
              return None
      return obj
  \<close>
\<close>

fun split_on :: "char \<Rightarrow> string \<Rightarrow> string list" where
  "split_on c [] = [[]]"
| "split_on c (x # xs) =
     (if x = c then [] # split_on c xs
      else (x # hd (split_on c xs)) # tl (split_on c xs))"

fun nested_attribute_loop :: "host \<Rightarrow> pyval \<Rightarrow> string list \<Rightarrow> exn + pyval" where
  "nested_attribute_loop h obj [] = Inr obj"
| "nested_attribute_loop h obj (attr # attributes) =
     (case getattr_default h obj attr of
        Inl e \<Rightarrow> Inl e
      | Inr obj' \<Rightarrow>
          if obj' = PNone then Inr PNone else nested_attribute_loop h obj' attributes)"

definition get_nested_attribute :: "host \<Rightarrow> pyval \<Rightarrow> string \<Rightarrow> exn + pyval" where
  "get_nested_attribute h obj attr_str =
     nested_attribute_loop h obj (split_on (CHR ''.'') attr_str)"

text \<open>
  The loop over the dropped files:
  \<^verbatim>\<open>
  for file in files:
      path = [item for item in _dnd_state['paths'] if urllib.parse.unquote(item[0]) == file['name']]
      if len(path) == 0:
          continue
      file['pywebviewFullPath'] = urllib.parse.unquote(path[0][1])
      _dnd_state['paths'].remove(path[0])
  \<close>
  It returns the file descriptors and the registry after the loop; \<open>matching\<close> is
  the list comprehension.
\<close>

definition matching :: "host \<Rightarrow> string \<Rightarrow> (string \<times> string) list \<Rightarrow> (string \<times> string) list" where
  "matching h n paths = filter (\<lambda>item. unquote h (fst item) = n) paths"

fun drop_loop ::
  "host \<Rightarrow> file_desc list \<Rightarrow> (string \<times> string) list \<Rightarrow>
   file_desc list \<times> (string \<times> string) list"
where
  "drop_loop h [] paths = ([], paths)"
| "drop_loop h (file # files) paths =
     (case matching h (file_name file) paths of
        [] \<Rightarrow> (case drop_loop h files paths of (files', paths') \<Rightarrow> (file # files', paths'))
      | path0 # _ \<Rightarrow>
          (case drop_loop h files (remove1 path0 paths) of
             (files', paths') \<Rightarrow>
               (file\<lparr>pywebviewFullPath := Some (unquote h (snd path0))\<rparr> # files', paths')))"

text \<open>
  \<^verbatim>\<open>
  def js_bridge_call(window, func_name: str, param: Any, value_id: str) -> None:
      if func_name == 'pywebviewMoveWindow':
          window.move(*param)
          return

      if func_name == 'pywebviewEventHandler':
          event = param['event']
          node_id = param['nodeId']
          element = window.dom._elements.get(node_id)

          if not element:
              return

          if event['type'] == 'drop':
              files = event['dataTransfer'].get('files', [])
              for file in files:
                  ...

          for handler in element._event_handlers.get(event['type'], []):
              thread = Thread(target=handler, args=(event,))
              thread.start()

          return

      if func_name == 'pywebviewAsyncCallback':
          value = json.loads(param) if param is not None else None

          if callable(window._callbacks[value_id]):
              window._callbacks[value_id](value)
          else:
              logger.error(
                  'Async function executed and callback is not callable. Returned value {0}'.format(
                      value
                  )
              )

          del window._callbacks[value_id]
          return

      func = window._functions.get(func_name) or get_nested_attribute(window._js_api, func_name)

      if func is not None:
          try:
              func_params = param
              thread = Thread(target=_call)
              thread.start()
          except Exception:
              logger.exception(
                  'Error occurred while evaluating function %s', func_name)
      else:
          logger.error('Function %s() does not exist', func_name)
  \<close>
  The three privileged branches and the normal resolution, one definition each. An
  exception raised while the name is resolved (by a property on the attribute path)
  leaves the dispatcher; one raised when the thread is started is logged.
\<close>

definition event_intake :: "host \<Rightarrow> world \<Rightarrow> param \<Rightarrow> error option \<times> world" where
  "event_intake h w p =
     (case p of
        Value v \<Rightarrow> (Some BadPayload, w)
      | EventPayload ev node_id \<Rightarrow>
          (case elements w node_id of
             None \<Rightarrow> (None, w)
           | Some el \<Rightarrow>
               (let handlers = (case event_handlers el (event_type ev) of
                                  None \<Rightarrow> [] | Some hs \<Rightarrow> hs)
                in if event_type ev = ''drop'' then
                     (case dataTransfer ev of
                        None \<Rightarrow> (Some (KeyError ''dataTransfer''), w)
                      | Some dt \<Rightarrow>
                          (case dt_files dt of
                             None \<Rightarrow>
                               (None, w\<lparr>threads := threads w @ map (\<lambda>handler. HandlerThread handler ev) handlers\<rparr>)
                           | Some files \<Rightarrow>
                               (case drop_loop h files (dnd_paths w) of
                                  (files', paths') \<Rightarrow>
                                    (let ev' = ev\<lparr>dataTransfer := Some (dt\<lparr>dt_files := Some files'\<rparr>)\<rparr>
                                     in (None, w\<lparr>dnd_paths := paths',
                                                threads := threads w @
                                                  map (\<lambda>handler. HandlerThread handler ev') handlers\<rparr>)))))
                   else (None, w\<lparr>threads := threads w @ map (\<lambda>handler. HandlerThread handler ev) handlers\<rparr>))))"

text \<open>\<^verbatim>\<open>value = json.loads(param) if param is not None else None\<close>\<close>

definition async_value :: "host \<Rightarrow> param \<Rightarrow> error + pyval" where
  "async_value h p =
     (case p of
        EventPayload ev node_id \<Rightarrow> Inl BadPayload
      | Value v \<Rightarrow>
          (if v \<noteq> PNone
           then (case json_loads h v of Inl e \<Rightarrow> Inl (Propagated e) | Inr x \<Rightarrow> Inr x)
           else Inr PNone))"

definition async_callback :: "host \<Rightarrow> world \<Rightarrow> param \<Rightarrow> string \<Rightarrow> error option \<times> world" where
  "async_callback h w p value_id =
     (case async_value h p of
        Inl err \<Rightarrow> (Some err, w)
      | Inr value \<Rightarrow>
          (case callbacks w value_id of
             None \<Rightarrow> (Some (KeyError value_id), w)
           | Some callback \<Rightarrow>
               (if py_callable h callback then
                  (case py_call1 h callback value of
                     Raised e \<Rightarrow> (Some (Propagated e), w\<lparr>invoked := invoked w @ [(callback, value)]\<rparr>)
                   | Returned r \<Rightarrow>
                       (None, w\<lparr>invoked := invoked w @ [(callback, value)],
                                 callbacks := (callbacks w)(value_id := None)\<rparr>))
                else
                  (None, w\<lparr>log := log w @
                             [LogError (''Async function executed and callback is not callable. Returned value '' @
                                        py_str h value)],
                           callbacks := (callbacks w)(value_id := None)\<rparr>))))"

definition resolve_func :: "host \<Rightarrow> world \<Rightarrow> string \<Rightarrow> exn + pyval" where
  "resolve_func h w func_name =
     (case map_of (window_functions w) func_name of
        Some f \<Rightarrow> if truthy h f then Inr f else get_nested_attribute h (js_api w) func_name
      | None \<Rightarrow> get_nested_attribute h (js_api w) func_name)"

definition js_bridge_call ::
  "host \<Rightarrow> world \<Rightarrow> string \<Rightarrow> param \<Rightarrow> string \<Rightarrow> error option \<times> world"
where
  "js_bridge_call h w func_name p value_id =
     (if func_name = ''pywebviewMoveWindow'' then (None, w\<lparr>moves := moves w @ [p]\<rparr>)
      else if func_name = ''pywebviewEventHandler'' then event_intake h w p
      else if func_name = ''pywebviewAsyncCallback'' then async_callback h w p value_id
      else
        (case resolve_func h w func_name of
           Inl e \<Rightarrow> (Some (Propagated e), w)
         | Inr func \<Rightarrow>
             if func \<noteq> PNone
             then (case thread_start h (CallThread func p func_name value_id) of
                     None \<Rightarrow> (None, w\<lparr>threads := threads w @ [CallThread func p func_name value_id]\<rparr>)
                   | Some e \<Rightarrow>
                       (None, w\<lparr>log := log w @
                                 [LogException (''Error occurred while evaluating function '' @ func_name)]\<rparr>))
             else (None, w\<lparr>log := log w @ [LogError (''Function '' @ func_name @ ''() does not exist'')]\<rparr>)))"


text \<open>
  The threads started by a call of the dispatcher, from the state before and the state
  after, and the result-delivery statements that these threads evaluate.
\<close>

definition new_threads :: "world \<Rightarrow> world \<Rightarrow> thread list" where
  "new_threads w w' = drop (length (threads w)) (threads w')"


definition privileged :: "string \<Rightarrow> bool" where
  "privileged func_name =
     (func_name = ''pywebviewMoveWindow'' \<or> func_name = ''pywebviewEventHandler'' \<or>
      func_name = ''pywebviewAsyncCallback'')"

text \<open>
  Resolution of a function name, stated apart from the code that performs it. A path
  of attribute names is written with dots. A chain follows a path from an object: each
  \<^verbatim>\<open>getattr\<close> returns, and returns a value other than \<^verbatim>\<open>None\<close>; the chain lists
  these values. An attribute is missing when \<^verbatim>\<open>getattr\<close> returns \<^verbatim>\<open>None\<close> or
  raises \<^verbatim>\<open>AttributeError\<close>.
\<close>

fun dotted :: "string list \<Rightarrow> string" where
  "dotted [] = []"
| "dotted [name] = name"
| "dotted (name # name' # names) = name @ ''.'' @ dotted (name' # names)"

fun attr_chain :: "host \<Rightarrow> pyval \<Rightarrow> string list \<Rightarrow> pyval list \<Rightarrow> bool" where
  "attr_chain h obj [] vs = (vs = [])"
| "attr_chain h obj (a # as) [] = False"
| "attr_chain h obj (a # as) (v # vs) =
     (py_getattr h obj a = Inr v \<and> v \<noteq> PNone \<and> attr_chain h v as vs)"

definition missing_attr :: "host \<Rightarrow> pyval \<Rightarrow> string \<Rightarrow> bool" where
  "missing_attr h obj a =
     (case py_getattr h obj a of Inr v \<Rightarrow> v = PNone | Inl e \<Rightarrow> py_is_attribute_error h e)"

text \<open>
  A name is registered when \<^verbatim>\<open>window._functions\<close> holds under it a value that is
  true as an operand of \<^verbatim>\<open>or\<close>. A name resolves to a callable when it is
  registered with that callable or, if it is not registered, when it is the dotted form
  of a path of dotless names whose chain from the API object ends in that callable. It
  is unresolvable when it is not registered and an attribute is missing somewhere along
  its path.
\<close>

definition registered :: "host \<Rightarrow> world \<Rightarrow> string \<Rightarrow> pyval \<Rightarrow> bool" where
  "registered h w func_name func =
     (map_of (window_functions w) func_name = Some func \<and> truthy h func)"


definition unresolvable :: "host \<Rightarrow> world \<Rightarrow> string \<Rightarrow> bool" where
  "unresolvable h w func_name =
     (\<not> (\<exists>f. registered h w func_name f) \<and>
      (\<exists>path k vs. func_name = dotted path \<and> (\<forall>a \<in> set path. CHR ''.'' \<notin> set a) \<and>
         k < length path \<and> attr_chain h (js_api w) (take k path) vs \<and>
         missing_attr h (last (js_api w # vs)) (path ! k)))"

section \<open>The stub generator: \<^verbatim>\<open>get_functions\<close> and \<^verbatim>\<open>generate_func\<close>\<close>

text \<open>
  \<^verbatim>\<open>
  exposed_objects = []

  def get_args(func: object):
      params = list(inspect.getfullargspec(func).args)
      return params

  def get_functions(obj: object, base_name: str = '', functions: dict = None):
      if obj in exposed_objects:
          return functions
      else:
          exposed_objects.append(obj)

      if functions is None:
          functions = {}

      for name in dir(obj):
          full_name = f"{base_name}.{name}" if base_name else name

          if name.startswith('_'):
              continue
          attr = getattr(obj, name)
          if inspect.ismethod(attr):
              functions[full_name] = get_args(attr)[1:]
          # If the attribute is a class or a non-callable object, make a recursive call
          elif inspect.isclass(attr) or (isinstance(attr, object) and not callable(attr) and hasattr(attr, "__module__")):
              get_functions(attr, full_name, functions)

      return functions
  \<close>
  The state of the walk is the pair of \<^verbatim>\<open>exposed_objects\<close> and the dictionary
  \<^verbatim>\<open>functions\<close>, an association list in insertion order. The walk ends in one of
  three ways: it returns (\<open>Done\<close>); a call on a host object raises, and the
  exception leaves the walk (\<open>Failed\<close>); or the depth of the recursion, which the
  first argument bounds as the interpreter's recursion limit does, is used up
  (\<open>TooDeep\<close>, Python's \<^verbatim>\<open>RecursionError\<close>). \<^verbatim>\<open>inject_pywebview\<close> catches both
  exceptions.
\<close>

datatype 'a attempt = Done 'a | Failed exn | TooDeep

text \<open>
  \<^verbatim>\<open>obj in exposed_objects\<close>: the list is searched from the front, and an item
  matches when it is the same object or compares equal with \<^verbatim>\<open>==\<close>.
\<close>

fun list_contains :: "host \<Rightarrow> pyval list \<Rightarrow> pyval \<Rightarrow> exn + bool" where
  "list_contains h [] obj = Inr False"
| "list_contains h (item # items) obj =
     (if item = obj then Inr True
      else (case py_eq h item obj of
              Inl e \<Rightarrow> Inl e
            | Inr equal \<Rightarrow> if equal then Inr True else list_contains h items obj))"

definition get_args :: "host \<Rightarrow> pyval \<Rightarrow> exn + string list" where
  "get_args h func = py_argspec h func"

definition full_name_of :: "string \<Rightarrow> string \<Rightarrow> string" where
  "full_name_of base_name name = (if base_name \<noteq> [] then base_name @ ''.'' @ name else name)"

text \<open>
  \<^verbatim>\<open>inspect.isclass(attr) or (isinstance(attr, object) and not callable(attr) and hasattr(attr, "__module__"))\<close>,
  evaluated from the left.
\<close>

definition recursive_attr :: "host \<Rightarrow> pyval \<Rightarrow> exn + bool" where
  "recursive_attr h attr =
     (if py_isclass h attr then Inr True
      else if py_callable h attr then Inr False
      else py_hasattr h attr ''__module__'')"

type_synonym walk_state = "pyval list \<times> (string \<times> string list) list"

fun get_functions :: "nat \<Rightarrow> host \<Rightarrow> pyval \<Rightarrow> string \<Rightarrow> walk_state \<Rightarrow> walk_state attempt"
  and get_functions_loop ::
    "nat \<Rightarrow> host \<Rightarrow> pyval \<Rightarrow> string \<Rightarrow> string list \<Rightarrow> walk_state \<Rightarrow> walk_state attempt"
where
  "get_functions 0 h obj base_name st = TooDeep"
| "get_functions (Suc depth) h obj base_name (exposed_objects, fns) =
     (case list_contains h exposed_objects obj of
        Inl e \<Rightarrow> Failed e
      | Inr seen \<Rightarrow>
          if seen then Done (exposed_objects, fns)
          else (case py_dir h obj of
                  Inl e \<Rightarrow> Failed e
                | Inr names \<Rightarrow>
                    get_functions_loop depth h obj base_name names (exposed_objects @ [obj], fns)))"
| "get_functions_loop depth h obj base_name [] st = Done st"
| "get_functions_loop depth h obj base_name (name # names) (exposed_objects, fns) =
     (if startswith name ''_'' then
        get_functions_loop depth h obj base_name names (exposed_objects, fns)
      else
        (case py_getattr h obj name of
           Inl e \<Rightarrow> Failed e
         | Inr attr \<Rightarrow>
             if py_ismethod h attr then
               (case get_args h attr of
                  Inl e \<Rightarrow> Failed e
                | Inr args \<Rightarrow>
                    get_functions_loop depth h obj base_name names
                      (exposed_objects, AList.update (full_name_of base_name name) (tl args) fns))
             else
               (case recursive_attr h attr of
                  Inl e \<Rightarrow> Failed e
                | Inr recurse \<Rightarrow>
                    if recurse then
                      (case get_functions depth h attr (full_name_of base_name name)
                              (exposed_objects, fns) of
                         Done st' \<Rightarrow> get_functions_loop depth h obj base_name names st'
                       | Failed e \<Rightarrow> Failed e
                       | TooDeep \<Rightarrow> TooDeep)
                    else get_functions_loop depth h obj base_name names (exposed_objects, fns))))"

text \<open>
  \<^verbatim>\<open>
  def generate_func():
      functions = get_functions(window._js_api)

      if len(window._functions) > 0:
          expose_functions = {name: get_args(f) for name, f in window._functions.items()}
      else:
          expose_functions = {}

      functions.update(expose_functions)

      return [{'func': name, 'params': params} for name, params in functions.items()]
  \<close>
  A catalog entry \<^verbatim>\<open>{'func': name, 'params': params}\<close> is the pair of the two. The
  dictionary comprehension stops at the first signature that cannot be read.
\<close>

fun expose_loop :: "host \<Rightarrow> (string \<times> pyval) list \<Rightarrow> exn + (string \<times> string list) list" where
  "expose_loop h [] = Inr []"
| "expose_loop h ((name, f) # items) =
     (case get_args h f of
        Inl e \<Rightarrow> Inl e
      | Inr args \<Rightarrow>
          (case expose_loop h items of
             Inl e \<Rightarrow> Inl e
           | Inr rest \<Rightarrow> Inr ((name, args) # rest)))"

definition expose_functions :: "host \<Rightarrow> world \<Rightarrow> exn + (string \<times> string list) list" where
  "expose_functions h w = expose_loop h (window_functions w)"

definition dict_update :: "('k \<times> 'v) list \<Rightarrow> ('k \<times> 'v) list \<Rightarrow> ('k \<times> 'v) list" where
  "dict_update d other = fold (\<lambda>(k, v). AList.update k v) other d"

definition generate_func :: "nat \<Rightarrow> host \<Rightarrow> world \<Rightarrow> (string \<times> string list) list attempt" where
  "generate_func depth h w =
     (case get_functions depth h (js_api w) [] ([], []) of
        TooDeep \<Rightarrow> TooDeep
      | Failed e \<Rightarrow> Failed e
      | Done (exposed_objects, fns) \<Rightarrow>
          (case expose_functions h w of
             Inl e \<Rightarrow> Failed e
           | Inr exposed \<Rightarrow> Done (dict_update fns exposed)))"

text \<open>
  \<^verbatim>\<open>
  try:
      func_list = generate_func()
  except Exception as e:
      logger.exception(e)
      func_list = []
  \<close>
  The catalog that \<^verbatim>\<open>inject_pywebview\<close> hands to \<^verbatim>\<open>load_js_files\<close>, and the log.
  After an exception the catalog is empty: the functions registered at run time are
  lost with the rest.
\<close>

definition inject_func_list ::
  "nat \<Rightarrow> host \<Rightarrow> world \<Rightarrow> (string \<times> string list) list \<times> log_record list"
where
  "inject_func_list depth h w =
     (case generate_func depth h w of
        Done func_list \<Rightarrow> (func_list, log w)
      | Failed e \<Rightarrow> ([], log w @ [LogException (exn_message e)])
      | TooDeep \<Rightarrow> ([], log w @ [LogException ''maximum recursion depth exceeded'']))"

section \<open>An example application\<close>

text \<open>
  A host application for the concrete instances below. Object 0 is the exposed API
  object with the methods \<^verbatim>\<open>greet(self, name)\<close> (object 10), which returns a string,
  and \<^verbatim>\<open>fail(self)\<close> (object 11), which raises \<^verbatim>\<open>ValueError\<close>, a private
  attribute and the attribute \<^verbatim>\<open>sub\<close>, an instance (object 1) with the method
  \<^verbatim>\<open>hello(self, a, b)\<close> (object 12), which returns a string. Object 20 is a
  function registered at run time, object 21 a function that calls \<^verbatim>\<open>sys.exit()\<close>,
  object 30 a callback, object 40 a handler of drop events. No two objects compare
  equal, every object is true, and threads start. The JSON functions cover the few
  values that occur.
\<close>

definition example_getattr :: "pyval \<Rightarrow> string \<Rightarrow> exn + pyval" where
  "example_getattr obj attr =
     (if obj = PObj 0 \<and> attr = ''greet'' then Inr (PObj 10)
      else if obj = PObj 0 \<and> attr = ''fail'' then Inr (PObj 11)
      else if obj = PObj 0 \<and> attr = ''sub'' then Inr (PObj 1)
      else if obj = PObj 0 \<and> attr = ''_secret'' then Inr (PStr ''s3'')
      else if obj = PObj 1 \<and> attr = ''hello'' then Inr (PObj 12)
      else if obj \<in> {PObj 0, PObj 1} \<and> attr = ''__module__'' then Inr (PStr ''app'')
      else Inl (Exn ''no such attribute'' ''AttributeError'' ''Traceback''))"

definition example_dumps :: "pyval \<Rightarrow> exn + string" where
  "example_dumps v =
     (case v of
        PStr s \<Rightarrow> Inr ([CHR 0x22] @ s @ [CHR 0x22])
      | PDict kvs \<Rightarrow>
          Inr (''{'' @ concat (map (\<lambda>(k, x). [CHR 0x22] @ k @ [CHR 0x22] @ '': '' @
                 (case x of PStr s \<Rightarrow> [CHR 0x22] @ s @ [CHR 0x22] | _ \<Rightarrow> ''null'') @ '','') kvs) @ ''}'')
      | PObj n \<Rightarrow> Inl (Exn ''Object is not JSON serializable'' ''TypeError'' ''Traceback'')
      | _ \<Rightarrow> Inr ''null'')"

definition example_host :: host where
  "example_host =
     \<lparr>py_dir = (\<lambda>obj. Inr (if obj = PObj 0 then [''_secret'', ''fail'', ''greet'', ''sub'']
                           else if obj = PObj 1 then [''hello''] else [])),
      py_getattr = example_getattr,
      py_is_attribute_error = (\<lambda>e. exn_name e = ''AttributeError''),
      py_eq = (\<lambda>a b. Inr False),
      py_bool = (\<lambda>obj. True),
      py_ismethod = (\<lambda>obj. obj \<in> {PObj 10, PObj 11, PObj 12}),
      py_isclass = (\<lambda>obj. False),
      py_callable = (\<lambda>obj. obj \<in> {PObj 10, PObj 11, PObj 12, PObj 20, PObj 21, PObj 30, PObj 40}),
      py_argspec = (\<lambda>obj. Inr (if obj = PObj 10 then [''self'', ''name'']
                               else if obj = PObj 11 then [''self'']
                               else if obj = PObj 12 then [''self'', ''a'', ''b'']
                               else if obj = PObj 20 then [''x''] else [])),
      py_call = (\<lambda>func p. if func = PObj 10 then Returns (PStr ''hello world'')
                          else if func = PObj 12 then Returns (PStr (''it'' @ [CHR 0x27] @ ''s''))
                          else if func = PObj 20 then Returns (PStr ''ok'')
                          else if func = PObj 21 then Aborts (Exn [] ''SystemExit'' ''Traceback'')
                          else Raises (Exn ''boom'' ''ValueError'' ''Traceback'')),
      py_call1 = (\<lambda>func v. Returned PNone),
      py_str = (\<lambda>v. ''value''),
      json_dumps = example_dumps,
      json_loads = (\<lambda>v. if v = PStr ''42'' then Inr (PInt 42)
                        else Inl (Exn ''Expecting value'' ''JSONDecodeError'' ''Traceback'')),
      unquote = (\<lambda>s. if s = ''a%20b.txt'' then ''a b.txt'' else s),
      thread_start = (\<lambda>t. None)\<rparr>"

definition example_world :: world where
  "example_world =
     \<lparr>js_api = PObj 0,
      window_functions = [(''adhoc'', PObj 20)],
      callbacks = [''cb1'' \<mapsto> PObj 30],
      elements = [''node1'' \<mapsto> \<lparr>event_handlers = [''drop'' \<mapsto> [PObj 40]]\<rparr>],
      dnd_paths = [(''a.txt'', ''/tmp/a.txt'')],
      log = [],
      threads = [],
      moves = [],
      invoked = []\<rparr>"

text \<open>A drop event that lists the files with the given names.\<close>

definition drop_event :: "string list \<Rightarrow> dom_event" where
  "drop_event names =
     \<lparr>event_type = ''drop'',
      dataTransfer = Some \<lparr>dt_files = Some (map (\<lambda>n. \<lparr>file_name = n, pywebviewFullPath = None\<rparr>) names)\<rparr>\<rparr>"

text \<open>
  The same application with a back reference: the instance \<^verbatim>\<open>sub\<close> has an
  attribute \<^verbatim>\<open>parent\<close> that is the API object again.
\<close>

definition cyclic_host :: host where
  "cyclic_host =
     example_host
       \<lparr>py_dir := (\<lambda>obj. Inr (if obj = PObj 0 then [''_secret'', ''fail'', ''greet'', ''sub'']
                             else if obj = PObj 1 then [''hello'', ''parent''] else [])),
        py_getattr := (\<lambda>obj attr. if obj = PObj 1 \<and> attr = ''parent'' then Inr (PObj 0)
                                   else example_getattr obj attr)\<rparr>"

text \<open>
  An API object (object 0) whose attributes \<^verbatim>\<open>first\<close> and \<^verbatim>\<open>second\<close> are two
  instances (objects 1 and 2) of one class that defines \<^verbatim>\<open>__eq__\<close> by value, as a
  data class does: they are two objects, and they compare equal. Each has the bound
  method \<^verbatim>\<open>m(self)\<close> (objects 14 and 15).
\<close>

definition equal_host :: host where
  "equal_host =
     example_host
       \<lparr>py_dir := (\<lambda>obj. Inr (if obj = PObj 0 then [''first'', ''second'']
                             else if obj \<in> {PObj 1, PObj 2} then [''m''] else [])),
        py_getattr := (\<lambda>obj attr. if obj = PObj 0 \<and> attr = ''first'' then Inr (PObj 1)
                                   else if obj = PObj 0 \<and> attr = ''second'' then Inr (PObj 2)
                                   else if obj = PObj 1 \<and> attr = ''m'' then Inr (PObj 14)
                                   else if obj = PObj 2 \<and> attr = ''m'' then Inr (PObj 15)
                                   else if obj \<in> {PObj 0, PObj 1, PObj 2} \<and> attr = ''__module__''
                                   then Inr (PStr ''app'')
                                   else Inl (Exn ''no such attribute'' ''AttributeError'' ''Traceback'')),
        py_eq := (\<lambda>a b. Inr (a \<in> {PObj 1, PObj 2} \<and> b \<in> {PObj 1, PObj 2})),
        py_ismethod := (\<lambda>obj. obj \<in> {PObj 14, PObj 15}),
        py_callable := (\<lambda>obj. obj \<in> {PObj 14, PObj 15}),
        py_argspec := (\<lambda>obj. Inr [''self''])\<rparr>"



text \<open>
  The example window after the native hook has registered two files of the same display
  name.
\<close>

definition duplicate_world :: world where
  "duplicate_world =
     example_world\<lparr>dnd_paths := [(''a.txt'', ''/tmp/a.txt''), (''a.txt'', ''/home/a.txt'')]\<rparr>"

text \<open>The number of files of a drop event that carry a given name.\<close>

definition occurrences :: "string \<Rightarrow> file_desc list \<Rightarrow> nat" where
  "occurrences n fs = length (filter (\<lambda>f. file_name f = n) fs)"

text \<open>
  The values of the calls that returned, for the statements below about the object
  graph: the names that \<^verbatim>\<open>dir\<close> lists, the attribute under a name, the parameter
  names of a callable, and whether the walk takes an attribute for an object to enter.
\<close>

definition dir_of :: "host \<Rightarrow> pyval \<Rightarrow> string list" where
  "dir_of h obj = (case py_dir h obj of Inr names \<Rightarrow> names | Inl e \<Rightarrow> [])"

definition attr_of :: "host \<Rightarrow> pyval \<Rightarrow> string \<Rightarrow> pyval" where
  "attr_of h obj name = (case py_getattr h obj name of Inr attr \<Rightarrow> attr | Inl e \<Rightarrow> PNone)"

definition args_of :: "host \<Rightarrow> pyval \<Rightarrow> string list" where
  "args_of h func = (case get_args h func of Inr args \<Rightarrow> args | Inl e \<Rightarrow> [])"

definition entered :: "host \<Rightarrow> pyval \<Rightarrow> bool" where
  "entered h attr = (recursive_attr h attr = Inr True)"

text \<open>
  The exposed object graph: the objects that the walk enters from an object are the
  public attributes that are not bound methods and are classes or non-callable objects
  with a \<^verbatim>\<open>__module__\<close>. A set of objects is closed when it contains the objects
  entered from its members.
\<close>

definition children :: "host \<Rightarrow> pyval \<Rightarrow> pyval list" where
  "children h obj =
     filter (\<lambda>attr. \<not> py_ismethod h attr \<and> entered h attr)
       (map (attr_of h obj) (filter (\<lambda>name. \<not> startswith name ''_'') (dir_of h obj)))"

definition closed_under :: "host \<Rightarrow> pyval set \<Rightarrow> bool" where
  "closed_under h S = (\<forall>obj \<in> S. set (children h obj) \<subseteq> S)"

text \<open>
  The objects reachable from a root by attribute traversal, the public bound-method
  attributes of an object, and the set that the catalog is counted against: the pairs
  of a reachable object and the name of one of its public bound methods.
\<close>

definition reachable :: "host \<Rightarrow> pyval \<Rightarrow> pyval set" where
  "reachable h root = {obj. (root, obj) \<in> {(a, b). b \<in> set (children h a)}\<^sup>*}"

definition method_names :: "host \<Rightarrow> pyval \<Rightarrow> string list" where
  "method_names h obj =
     filter (\<lambda>name. \<not> startswith name ''_'' \<and> py_ismethod h (attr_of h obj name)) (dir_of h obj)"

definition public_methods :: "host \<Rightarrow> pyval \<Rightarrow> (pyval \<times> string) set" where
  "public_methods h root = {(obj, name). obj \<in> reachable h root \<and> name \<in> set (method_names h obj)}"

text \<open>
  Attribute names are identifiers: not empty and without a dot. A path of attribute
  names is followed from an object by \<^verbatim>\<open>getattr\<close>.
\<close>

definition is_identifier :: "string \<Rightarrow> bool" where
  "is_identifier name = (name \<noteq> [] \<and> CHR ''.'' \<notin> set name)"

definition identifiers_in :: "host \<Rightarrow> pyval set \<Rightarrow> bool" where
  "identifiers_in h S =
     (\<forall>obj \<in> S. \<forall>name \<in> set (dir_of h obj). \<not> startswith name ''_'' \<longrightarrow> is_identifier name)"

definition follow :: "host \<Rightarrow> pyval \<Rightarrow> string list \<Rightarrow> pyval" where
  "follow h obj path = foldl (attr_of h) obj path"

text \<open>
  The walk of \<^verbatim>\<open>get_functions\<close> as a relation between the state before and the state
  after, for a walk in which no call raises and on objects whose equality is identity,
  with one annotation: each entry of \<^verbatim>\<open>exposed_objects\<close> is paired with the
  attribute path under which the object was entered, and the base name is the dotted
  form of that path.
\<close>

type_synonym visits = "(pyval \<times> string list) list \<times> (string \<times> string list) list"

inductive walk :: "host \<Rightarrow> pyval \<Rightarrow> string list \<Rightarrow> visits \<Rightarrow> visits \<Rightarrow> bool"
  and walk_attrs :: "host \<Rightarrow> pyval \<Rightarrow> string list \<Rightarrow> string list \<Rightarrow> visits \<Rightarrow> visits \<Rightarrow> bool"
  for h :: host
where
  walk_seen: "obj \<in> fst ` set V \<Longrightarrow> walk h obj path (V, F) (V, F)"
| walk_enter:
    "obj \<notin> fst ` set V \<Longrightarrow>
     walk_attrs h obj path (dir_of h obj) (V @ [(obj, path)], F) st' \<Longrightarrow>
     walk h obj path (V, F) st'"
| attrs_done: "walk_attrs h obj path [] st st"
| attrs_private:
    "startswith name ''_'' \<Longrightarrow> walk_attrs h obj path names st st' \<Longrightarrow>
     walk_attrs h obj path (name # names) st st'"
| attrs_method:
    "\<not> startswith name ''_'' \<Longrightarrow> py_ismethod h (attr_of h obj name) \<Longrightarrow>
     walk_attrs h obj path names
       (V, AList.update (dotted (path @ [name])) (tl (args_of h (attr_of h obj name))) F) st' \<Longrightarrow>
     walk_attrs h obj path (name # names) (V, F) st'"
| attrs_object:
    "\<not> startswith name ''_'' \<Longrightarrow> \<not> py_ismethod h (attr_of h obj name) \<Longrightarrow>
     entered h (attr_of h obj name) \<Longrightarrow>
     walk h (attr_of h obj name) (path @ [name]) st st1 \<Longrightarrow>
     walk_attrs h obj path names st1 st' \<Longrightarrow>
     walk_attrs h obj path (name # names) st st'"
| attrs_other:
    "\<not> startswith name ''_'' \<Longrightarrow> \<not> py_ismethod h (attr_of h obj name) \<Longrightarrow>
     \<not> entered h (attr_of h obj name) \<Longrightarrow>
     walk_attrs h obj path names st st' \<Longrightarrow>
     walk_attrs h obj path (name # names) st st'"

text \<open>
  A list of objects is separated when no element is the same object as a later one or
  compares equal to it.
\<close>

fun separated :: "host \<Rightarrow> pyval list \<Rightarrow> bool" where
  "separated h [] = True"
| "separated h (x # xs) = ((\<forall>y \<in> set xs. x \<noteq> y \<and> py_eq h x y = Inr False) \<and> separated h xs)"

text \<open>
  A walk from a state that ends within the depth at hand: it does not use up the depth,
  and when it returns the list of exposed objects has grown, is separated, and stays
  inside the given set of objects.
\<close>

definition walk_ok :: "host \<Rightarrow> pyval set \<Rightarrow> walk_state \<Rightarrow> walk_state attempt \<Rightarrow> bool" where
  "walk_ok h S st r =
     (case r of
        TooDeep \<Rightarrow> False
      | Failed e \<Rightarrow> True
      | Done st' \<Rightarrow> separated h (fst st') \<and> set (fst st) \<subseteq> set (fst st') \<and> set (fst st') \<subseteq> S)"

text \<open>
  Two conditions on a set of objects. Introspection succeeds: on the objects of the set
  no call that the walk makes raises. Equality is identity: two objects of the set
  compare equal only when they are the same object.
\<close>

definition introspectable :: "host \<Rightarrow> pyval set \<Rightarrow> bool" where
  "introspectable h S =
     (\<forall>obj \<in> S.
        (\<exists>names. py_dir h obj = Inr names) \<and>
        (\<forall>item \<in> S. \<exists>equal. py_eq h item obj = Inr equal) \<and>
        (\<forall>name \<in> set (dir_of h obj). \<not> startswith name ''_'' \<longrightarrow>
           (\<exists>attr. py_getattr h obj name = Inr attr) \<and>
           (if py_ismethod h (attr_of h obj name)
            then \<exists>args. get_args h (attr_of h obj name) = Inr args
            else \<exists>recurse. recursive_attr h (attr_of h obj name) = Inr recurse)))"

definition identity_eq :: "host \<Rightarrow> pyval set \<Rightarrow> bool" where
  "identity_eq h S = (\<forall>a \<in> S. \<forall>b \<in> S. a \<noteq> b \<longrightarrow> py_eq h a b = Inr False)"

text \<open>
  Two invariants of the annotated walk from a root. Soundness: every recorded path leads
  from the root to its object and consists of identifiers, and every entry of the
  dictionary is the dotted path of a public bound method of a recorded object, with that
  method's parameter names after the receiver. Completeness, for the objects that are
  not in the set \<open>P\<close> of objects whose attributes are still being enumerated: all
  public bound methods of the object have their entry, and the objects entered from it
  are recorded.
\<close>

definition sound :: "host \<Rightarrow> pyval \<Rightarrow> visits \<Rightarrow> bool" where
  "sound h root st =
     ((\<forall>(obj, path) \<in> set (fst st).
         follow h root path = obj \<and> (\<forall>name \<in> set path. is_identifier name)) \<and>
      (\<forall>(k, ps) \<in> set (snd st).
         \<exists>(obj, path) \<in> set (fst st). \<exists>name \<in> set (method_names h obj).
           k = dotted (path @ [name]) \<and> ps = tl (args_of h (attr_of h obj name))))"

definition complete :: "host \<Rightarrow> pyval set \<Rightarrow> visits \<Rightarrow> bool" where
  "complete h P st =
     (\<forall>obj \<in> fst ` set (fst st). obj \<notin> P \<longrightarrow>
        (\<exists>path. (obj, path) \<in> set (fst st) \<and>
           (\<forall>name \<in> set (method_names h obj). dotted (path @ [name]) \<in> fst ` set (snd st))) \<and>
        set (children h obj) \<subseteq> fst ` set (fst st))"

text \<open>The objects entered through the attributes of a list of names.\<close>

definition children_via :: "host \<Rightarrow> pyval \<Rightarrow> string list \<Rightarrow> pyval set" where
  "children_via h obj names =
     {attr_of h obj name | name.
        name \<in> set names \<and> \<not> startswith name ''_'' \<and> \<not> py_ismethod h (attr_of h obj name) \<and>
        entered h (attr_of h obj name)}"

text \<open>
  The public callable attributes, whether bound methods or not, for comparison with the
  catalog.
\<close>

definition callable_names :: "host \<Rightarrow> pyval \<Rightarrow> string list" where
  "callable_names h obj =
     filter (\<lambda>name. \<not> startswith name ''_'' \<and> py_callable h (attr_of h obj name)) (dir_of h obj)"

definition public_callables :: "host \<Rightarrow> pyval \<Rightarrow> (pyval \<times> string) set" where
  "public_callables h root =
     {(obj, name). obj \<in> reachable h root \<and> name \<in> set (callable_names h obj)}"

text \<open>
  An API object with the bound method \<^verbatim>\<open>greet(self, name)\<close> and a static method
  \<^verbatim>\<open>ping\<close> (object 13): callable, but not a bound method. The window has no
  functions registered at run time.
\<close>

definition static_host :: host where
  "static_host =
     example_host
       \<lparr>py_dir := (\<lambda>obj. Inr (if obj = PObj 0 then [''greet'', ''ping''] else [])),
        py_getattr := (\<lambda>obj attr. if obj = PObj 0 \<and> attr = ''greet'' then Inr (PObj 10)
                                   else if obj = PObj 0 \<and> attr = ''ping'' then Inr (PObj 13)
                                   else Inl (Exn ''no such attribute'' ''AttributeError'' ''Traceback'')),
        py_callable := (\<lambda>obj. obj \<in> {PObj 10, PObj 13})\<rparr>"

definition static_world :: world where
  "static_world = example_world\<lparr>window_functions := []\<rparr>"

section \<open>Properties of \<^verbatim>\<open>sort_js_files\<close>\<close>

lemma mset_list_insert: "mset (list_insert i x xs) = add_mset x (mset xs)"
proof -
  have "mset (take i xs) + mset (drop i xs) = mset xs"
    by (metis append_take_drop_id mset_append)
  then show ?thesis by (simp add: list_insert_def)
qed

lemma mset_insert_js_files:
  "mset (insert_js_files rest ordered) = mset (map snd rest) + mset ordered"
  by (induction rest ordered rule: insert_js_files.induct) (simp_all add: mset_list_insert)

lemma split_js_files_eq:
  "split_js_files fs (ordered, remaining) =
     (ordered @ filter unordered_js fs,
      remaining @ map (\<lambda>f. (file_basename f, f)) (filter (\<lambda>f. \<not> unordered_js f) fs))"
  by (induction fs arbitrary: ordered remaining) (simp_all add: unordered_js_def)

text \<open>
  The subscript \<^verbatim>\<open>LOAD_ORDER[x[0]]\<close> never raises: every pair put into
  \<^verbatim>\<open>remaining_js_files\<close> carries a key of \<^verbatim>\<open>LOAD_ORDER\<close>.
\<close>

lemma remaining_keys_in_LOAD_ORDER:
  assumes "split_js_files fs ([], []) = (ordered, remaining)"
    and "x \<in> set remaining"
  shows "LOAD_ORDER (fst x) \<noteq> None"
  using assms by (auto simp: split_js_files_eq unordered_js_def)

text \<open>
  Claim C8. The list returned by \<^verbatim>\<open>sort_js_files\<close> is a permutation of its input:
  every path occurs in the output as often as in the input (once, for the distinct
  paths of a directory listing), and no other path occurs.
\<close>

theorem sort_js_files_permutation: "mset (sort_js_files js_files) = mset js_files"
proof -
  obtain ordered remaining where s: "split_js_files js_files ([], []) = (ordered, remaining)"
    by (cases "split_js_files js_files ([], [])")
  have o: "ordered = filter unordered_js js_files"
    and r: "map snd remaining = filter (\<lambda>f. \<not> unordered_js f) js_files"
    using s by (auto simp: split_js_files_eq comp_def)
  have "mset ordered + mset (map snd remaining) = mset js_files"
    unfolding o r by (induction js_files) simp_all
  moreover have "mset (sort_js_files js_files) =
        mset (map snd (sort_key (\<lambda>x. the (LOAD_ORDER (fst x))) remaining)) + mset ordered"
    by (simp add: sort_js_files_def s mset_insert_js_files)
  moreover have "mset (map snd (sort_key (\<lambda>x. the (LOAD_ORDER (fst x))) remaining))
        = mset (map snd remaining)"
    by (metis mset_map mset_sort)
  ultimately show ?thesis
    by (simp add: add.commute)
qed

subsection \<open>The order of the three named fragments\<close>

lemma LOAD_ORDER_simps:
  "LOAD_ORDER ''polyfill'' = Some 0" "LOAD_ORDER ''api'' = Some 1" "LOAD_ORDER ''finish'' = Some 99"
  by (simp_all add: LOAD_ORDER_def)

lemma sort_three_named:
  assumes m: "mset rem = {#(''polyfill'', P), (''api'', A), (''finish'', F)#}"
  shows "sort_key (\<lambda>x. the (LOAD_ORDER (fst x))) rem =
         [(''polyfill'', P), (''api'', A), (''finish'', F)]"
proof (rule properties_for_sort_key)
  show "mset [(''polyfill'', P), (''api'', A), (''finish'', F)] = mset rem"
    using m by simp
  show "sorted (map (\<lambda>x. the (LOAD_ORDER (fst x))) [(''polyfill'', P), (''api'', A), (''finish'', F)])"
    by (simp add: LOAD_ORDER_simps)
next
  fix k assume k: "k \<in> set [(''polyfill'', P), (''api'', A), (''finish'', F)]"
  let ?key = "\<lambda>x. the (LOAD_ORDER (fst x))"
  have "mset (filter (\<lambda>x. ?key k = ?key x) rem) =
        mset (filter (\<lambda>x. ?key k = ?key x) [(''polyfill'', P), (''api'', A), (''finish'', F)])"
    using m by (simp only: mset_filter) simp
  moreover have "\<exists>y. filter (\<lambda>x. ?key k = ?key x) [(''polyfill'', P), (''api'', A), (''finish'', F)] = [y]"
    using k by (auto simp: LOAD_ORDER_simps)
  ultimately show "filter (\<lambda>x. ?key k = ?key x) [(''polyfill'', P), (''api'', A), (''finish'', F)] =
        filter (\<lambda>x. ?key k = ?key x) rem"
    by (metis mset.simps(1) mset.simps(2) mset_single_iff_right)
qed

text \<open>
  With one fragment of each of the three names, whatever the order in which the
  directory listing yields them, the result starts with polyfill and api; the finish
  fragment is inserted at index 99, which is the end only if the list is short enough.
\<close>

lemma sort_js_files_shape:
  assumes named: "mset (filter (\<lambda>f. \<not> unordered_js f) fs) = {#P, A, F#}"
    and P: "file_basename P = ''polyfill''"
    and A: "file_basename A = ''api''"
    and F: "file_basename F = ''finish''"
  shows "sort_js_files fs =
         P # A # take 97 (filter unordered_js fs) @ F # drop 97 (filter unordered_js fs)"
proof -
  let ?rem = "map (\<lambda>f. (file_basename f, f)) (filter (\<lambda>f. \<not> unordered_js f) fs)"
  have "mset ?rem = image_mset (\<lambda>f. (file_basename f, f)) {#P, A, F#}"
    using named by (metis mset_map)
  then have "mset ?rem = {#(''polyfill'', P), (''api'', A), (''finish'', F)#}"
    by (simp add: P A F)
  from sort_three_named [OF this] show ?thesis
    by (simp add: sort_js_files_def split_js_files_eq LOAD_ORDER_simps list_insert_def)
qed

text \<open>
  With at most 97 unordered fragments the order is the documented one: polyfill, api,
  the unordered fragments in the order of the listing, finish.
\<close>

lemma sort_js_files_order:
  assumes "mset (filter (\<lambda>f. \<not> unordered_js f) fs) = {#P, A, F#}"
    and "file_basename P = ''polyfill''"
    and "file_basename A = ''api''"
    and "file_basename F = ''finish''"
    and "length (filter unordered_js fs) \<le> 97"
  shows "sort_js_files fs = P # A # filter unordered_js fs @ [F]"
  using sort_js_files_shape [OF assms(1-4)] assms(5) by simp

lemma load_js_loop_eq:
  "load_js_loop platform render files js_code =
   js_code @ concat (map (\<lambda>f. render f (file_basename f))
     (filter (\<lambda>f. \<not> (file_basename f = ''polyfill'' \<and> platform \<noteq> ''mshtml'')) files))"
  by (induction files arbitrary: js_code) (simp_all add: Let_def)

text \<open>
  On a backend other than \<^verbatim>\<open>mshtml\<close> the polyfill fragment is skipped after the
  sort, and the rest keeps its order: api, the unordered fragments, finish.
\<close>

lemma load_js_files_without_polyfill:
  assumes "mset (filter (\<lambda>f. \<not> unordered_js f) fs) = {#P, A, F#}"
    and "file_basename P = ''polyfill''"
    and "file_basename A = ''api''"
    and "file_basename F = ''finish''"
    and "length (filter unordered_js fs) \<le> 97"
    and "platform \<noteq> ''mshtml''"
  shows "load_js_files platform render fs =
         concat (map (\<lambda>f. render f (file_basename f)) (A # filter unordered_js fs @ [F]))"
proof -
  have "filter (\<lambda>f. file_basename f \<noteq> ''polyfill'') (filter unordered_js fs) = filter unordered_js fs"
    by (rule filter_True) (auto simp: unordered_js_def LOAD_ORDER_simps)
  then show ?thesis
    using assms by (simp add: load_js_files_def load_js_loop_eq sort_js_files_order [OF assms(1-5)])
qed

text \<open>
  Claim C5. The docstring of \<^verbatim>\<open>sort_js_files\<close> promises polyfill first, then api,
  then the rest and finally finish. The finish fragment is placed by
  \<^verbatim>\<open>insert(99, file)\<close>: in a listing with the three named fragments and 98 others
  it lands at index 99 of 101, and the last fragment loaded is an unordered one.
\<close>

theorem sort_js_files_finish_not_last:
  "length (sort_js_files many_js_files) = 101 \<and>
   sort_js_files many_js_files ! 99 = ''/j/finish.js'' \<and>
   last (sort_js_files many_js_files) = ''/j/l7.js''"
  by code_simp

section \<open>Properties of \<^verbatim>\<open>escape_string\<close>\<close>

lemma str_replace_Nil: "str_replace old new [] = []"
  by (simp add: str_replace_def)

lemma str_replace_Cons:
  "str_replace old new (c # s) = (if c = old then new else [c]) @ str_replace old new s"
  by (simp add: str_replace_def)

lemma str_replace_append:
  "str_replace old new (s @ t) = str_replace old new s @ str_replace old new t"
  by (simp add: str_replace_def)

lemma escape_string_Nil: "escape_string [] = []"
  by (simp add: escape_string_def str_replace_Nil)

lemma escape_string_Cons: "escape_string (c # s) = escape_char c @ escape_string s"
  by (simp add: escape_string_def escape_char_def str_replace_Cons str_replace_append str_replace_Nil)

lemma escape_char_not_Nil: "escape_char c \<noteq> []"
  by (simp add: escape_char_def)

text \<open>No code word of \<open>escape_char\<close> is a prefix of another.\<close>

lemma escape_char_prefix_free:
  "escape_char c @ u = escape_char d @ v \<Longrightarrow> c = d \<and> u = v"
  by (auto simp: escape_char_def split: if_splits)

lemma escape_string_inj: "escape_string s = escape_string t \<Longrightarrow> s = t"
proof (induction s arbitrary: t)
  case Nil
  then show ?case
    by (cases t) (simp_all add: escape_string_Nil escape_string_Cons escape_char_not_Nil)
next
  case (Cons c s)
  show ?case
  proof (cases t)
    case Nil
    with Cons.prems show ?thesis
      by (simp add: escape_string_Nil escape_string_Cons escape_char_not_Nil)
  next
    case (Cons d t')
    with Cons.prems have "escape_char c @ escape_string s = escape_char d @ escape_string t'"
      by (simp add: escape_string_Cons)
    then have "c = d" and "escape_string s = escape_string t'"
      using escape_char_prefix_free by blast+
    with Cons.IH Cons show ?thesis by simp
  qed
qed

text \<open>
  Claim C10. \<^verbatim>\<open>escape_string\<close> is injective: two distinct strings have distinct
  escaped forms.
\<close>

theorem escape_string_injective: "s \<noteq> t \<Longrightarrow> escape_string s \<noteq> escape_string t"
  using escape_string_inj by blast

theorem escape_string_injective_witness:
  "[CHR 0x5C, CHR ''n''] \<noteq> [CHR 0x0A] \<and>
   escape_string [CHR 0x5C, CHR ''n''] \<noteq> escape_string [CHR 0x0A]"
  using escape_string_injective [of "[CHR 0x5C, CHR ''n'']" "[CHR 0x0A]"] by simp

section \<open>Properties of \<^verbatim>\<open>DOMEvent.__isub__\<close>\<close>

text \<open>
  Claim C9. Unsubscribing, with \<^verbatim>\<open>-=\<close>, a handler that is not in the subscription's
  handler list raises nothing, leaves the subscription (its handler list and the
  element with its event-handler registry) as it was, and appends one warning to the
  log.
\<close>

theorem DOMEvent_isub_not_registered:
  "item \<notin> set (items_of self) \<Longrightarrow>
   DOMEvent_isub off str_of self logs item =
     (None, self, logs @ [LogWarning (''Event handler '' @ str_of item @ '' not found'')])"
  by (simp add: DOMEvent_isub_def)

theorem DOMEvent_isub_not_registered_witness:
  "(2::nat) \<notin> set (items_of \<lparr>event_of = ''click'', element_of = [(''click'', [1::nat])], items_of = [1]\<rparr>) \<and>
   DOMEvent_isub (\<lambda>el ev h. Inr (map (\<lambda>(e, hs). (e, if e = ev then remove1 h hs else hs)) el) :: unit + _)
       (\<lambda>h. ''h'') \<lparr>event_of = ''click'', element_of = [(''click'', [1::nat])], items_of = [1]\<rparr> [] 2 =
     (None, \<lparr>event_of = ''click'', element_of = [(''click'', [1::nat])], items_of = [1]\<rparr>,
      [LogWarning ''Event handler h not found''])"
  using DOMEvent_isub_not_registered
    [of 2 "\<lparr>event_of = ''click'', element_of = [(''click'', [1::nat])], items_of = [1]\<rparr>"
        "\<lambda>el ev h. Inr (map (\<lambda>(e, hs). (e, if e = ev then remove1 h hs else hs)) el) :: unit + _"
        "\<lambda>h. ''h''" "[]"]
  by simp


section \<open>Dotted names\<close>

lemma dotted_eq_Nil: "\<forall>n \<in> set path. n \<noteq> [] \<Longrightarrow> (dotted path = []) = (path = [])"
  by (induction path rule: dotted.induct) auto

lemma dotted_snoc:
  "dotted (path @ [name]) = (if path = [] then name else dotted path @ ''.'' @ name)"
  by (induction path rule: dotted.induct) auto

lemma full_name_dotted:
  assumes "\<forall>n \<in> set path. n \<noteq> []"
  shows "full_name_of (dotted path) name = dotted (path @ [name])"
  using dotted_eq_Nil [OF assms] by (simp add: full_name_of_def dotted_snoc)

lemma split_on_no_sep: "c \<notin> set s \<Longrightarrow> split_on c s = [s]"
  by (induction s) auto

lemma split_on_append_sep: "c \<notin> set s \<Longrightarrow> split_on c (s @ c # t) = s # split_on c t"
  by (induction s) auto

lemma split_on_dotted:
  assumes "xs \<noteq> []" and "\<forall>n \<in> set xs. CHR ''.'' \<notin> set n"
  shows "split_on (CHR ''.'') (dotted xs) = xs"
  using assms
  by (induction xs rule: dotted.induct) (simp_all add: split_on_no_sep split_on_append_sep)

lemma dotted_inj:
  assumes "dotted xs = dotted ys" and "xs \<noteq> []" and "ys \<noteq> []"
    and "\<forall>n \<in> set xs. CHR ''.'' \<notin> set n" and "\<forall>n \<in> set ys. CHR ''.'' \<notin> set n"
  shows "xs = ys"
  using assms split_on_dotted by metis


section \<open>Properties of the call dispatcher\<close>

subsection \<open>The worker thread\<close>







subsection \<open>Resolution of the function name\<close>











subsection \<open>Normal resolution\<close>




text \<open>
  An exception that a property on the attribute path raises, other than
  \<^verbatim>\<open>AttributeError\<close>, leaves the dispatcher.
\<close>

lemma js_bridge_call_resolution_raises:
  assumes "\<not> privileged func_name" and "resolve_func h w func_name = Inl e"
  shows "js_bridge_call h w func_name p value_id = (Some (Propagated e), w)"
  using assms by (simp add: js_bridge_call_def privileged_def)




lemma example_not_registered:
  "func_name \<noteq> ''adhoc'' \<Longrightarrow> \<not> (\<exists>f. registered example_host example_world func_name f)"
  by (simp add: registered_def example_world_def)




lemma example_unresolvable_nosuch: "unresolvable example_host example_world ''nosuch''"
proof -
  have "missing_attr example_host (last (js_api example_world # [])) ([''nosuch''] ! 0)"
    by (simp add: missing_attr_def example_host_def example_world_def example_getattr_def)
  moreover have "''nosuch'' = dotted [''nosuch'']" by simp
  moreover have "attr_chain example_host (js_api example_world) (take 0 [''nosuch'']) []" by simp
  ultimately show ?thesis
    unfolding unresolvable_def
    by (intro conjI exI [of _ "[''nosuch'']"] exI [of _ "0::nat"] exI [of _ "[]::pyval list"])
       (simp_all add: example_not_registered)
qed








subsection \<open>Delivery of asynchronous results\<close>

lemma js_bridge_call_async:
  "js_bridge_call h w ''pywebviewAsyncCallback'' p value_id = async_callback h w p value_id"
  by (simp add: js_bridge_call_def)

text \<open>
  Claim C3, as stated, fails: the registry is read with the subscript
  \<^verbatim>\<open>window._callbacks[value_id]\<close>, so a result for a correlation id that is not
  registered raises \<^verbatim>\<open>KeyError\<close> out of the dispatcher, and nothing is logged. In
  the example window only \<^verbatim>\<open>cb1\<close> is registered.
\<close>

theorem async_callback_unknown_id_raises:
  "js_bridge_call example_host example_world ''pywebviewAsyncCallback'' (Value (PStr ''42'')) ''stale'' =
     (Some (KeyError ''stale''), example_world)"
  by (simp add: js_bridge_call_async async_callback_def async_value_def example_host_def
      example_world_def)

text \<open>
  Claim C3, amended. Let the payload decode to a value. If a callable is registered
  under the correlation id and returns when called, the dispatcher calls it once, with
  the decoded value, removes the registration and raises nothing; a second delivery for
  the same id then raises \<^verbatim>\<open>KeyError\<close> and changes nothing. If nothing is registered
  under the id, the delivery raises \<^verbatim>\<open>KeyError\<close>; nothing is logged and nothing
  changes.
\<close>

theorem async_callback_delivery:
  assumes "async_value h p = Inr v"
  shows "(callbacks w c = Some cb \<and> py_callable h cb \<and> py_call1 h cb v = Returned r \<longrightarrow>
            js_bridge_call h w ''pywebviewAsyncCallback'' p c =
              (None, w\<lparr>invoked := invoked w @ [(cb, v)], callbacks := (callbacks w)(c := None)\<rparr>) \<and>
            js_bridge_call h (w\<lparr>invoked := invoked w @ [(cb, v)], callbacks := (callbacks w)(c := None)\<rparr>)
                ''pywebviewAsyncCallback'' p c =
              (Some (KeyError c), w\<lparr>invoked := invoked w @ [(cb, v)], callbacks := (callbacks w)(c := None)\<rparr>)) \<and>
         (callbacks w c = None \<longrightarrow>
            js_bridge_call h w ''pywebviewAsyncCallback'' p c = (Some (KeyError c), w))"
  using assms by (simp add: js_bridge_call_async async_callback_def)

theorem async_callback_delivery_witness:
  "async_value example_host (Value (PStr ''42'')) = Inr (PInt 42) \<and>
   callbacks example_world ''cb1'' = Some (PObj 30) \<and> py_callable example_host (PObj 30) \<and>
   py_call1 example_host (PObj 30) (PInt 42) = Returned PNone \<and>
   js_bridge_call example_host example_world ''pywebviewAsyncCallback'' (Value (PStr ''42'')) ''cb1'' =
     (None, example_world\<lparr>invoked := [(PObj 30, PInt 42)], callbacks := Map.empty\<rparr>) \<and>
   callbacks example_world ''stale'' = None \<and>
   js_bridge_call example_host example_world ''pywebviewAsyncCallback'' (Value (PStr ''42'')) ''stale'' =
     (Some (KeyError ''stale''), example_world)"
proof -
  have v: "async_value example_host (Value (PStr ''42'')) = Inr (PInt 42)"
    by (simp add: async_value_def example_host_def)
  have cb: "callbacks example_world ''cb1'' = Some (PObj 30)"
    and st: "callbacks example_world ''stale'' = None"
    and i: "invoked example_world = []"
    and e: "(callbacks example_world)(''cb1'' := None) = Map.empty"
    by (simp_all add: example_world_def)
  have c: "py_callable example_host (PObj 30)"
    and r: "py_call1 example_host (PObj 30) (PInt 42) = Returned PNone"
    by (simp_all add: example_host_def)
  from async_callback_delivery [OF v, of example_world "''cb1''" "PObj 30" PNone]
       async_callback_delivery [OF v, of example_world "''stale''"]
  show ?thesis using v cb st c r by (simp add: i e)
qed

subsection \<open>The event relay and the registry of dropped paths\<close>

lemma js_bridge_call_event:
  "js_bridge_call h w ''pywebviewEventHandler'' p value_id = event_intake h w p"
  by (simp add: js_bridge_call_def)

lemma matching_remove1:
  "matching h n (remove1 e ps) =
     (if unquote h (fst e) = n then remove1 e (matching h n ps) else matching h n ps)"
  by (induction ps) (auto simp: matching_def)

lemma matching_remove1_head:
  assumes "matching h m ps = e # es"
  shows "matching h n (remove1 e ps) = (if m = n then es else matching h n ps)"
proof -
  from assms have "e \<in> set (matching h m ps)" by simp
  then have "unquote h (fst e) = m" by (simp add: matching_def)
  with assms show ?thesis by (auto simp: matching_remove1)
qed

lemma drop_loop_Cons_match:
  assumes "matching h (file_name f) ps = e # es"
  shows "drop_loop h (f # fs) ps =
         (f\<lparr>pywebviewFullPath := Some (unquote h (snd e))\<rparr> # fst (drop_loop h fs (remove1 e ps)),
          snd (drop_loop h fs (remove1 e ps)))"
  using assms by (simp split: prod.splits)

lemma drop_loop_Cons_no_match:
  assumes "matching h (file_name f) ps = []"
  shows "drop_loop h (f # fs) ps = (f # fst (drop_loop h fs ps), snd (drop_loop h fs ps))"
  using assms by (simp split: prod.splits)

declare drop_loop.simps(2) [simp del]

text \<open>The registry after the loop: for each name, as many entries are gone from the
  front of its matching entries as the event has files of that name.\<close>

lemma drop_loop_registry:
  "matching h n (snd (drop_loop h fs ps)) =
     drop (occurrences n fs) (matching h n ps)"
proof (induction fs arbitrary: ps)
  case Nil
  then show ?case by (simp add: occurrences_def)
next
  case (Cons f fs)
  show ?case
  proof (cases "matching h (file_name f) ps")
    case Nil
    then show ?thesis
      by (cases "file_name f = n") (simp_all add: drop_loop_Cons_no_match Cons.IH occurrences_def)
  next
    case (Cons e es)
    then show ?thesis
      by (cases "file_name f = n")
         (simp_all add: drop_loop_Cons_match Cons.IH matching_remove1_head occurrences_def)
  qed
qed

text \<open>The files after the loop: the \<open>k\<close>-th file of a name gets the path of the
  \<open>k\<close>-th entry of that name, if there is one, and is left as it is otherwise.\<close>

lemma drop_loop_file:
  assumes "i < length fs"
  shows "fst (drop_loop h fs ps) ! i =
     (let n = file_name (fs ! i);
          k = occurrences n (take i fs)
      in if k < length (matching h n ps)
         then (fs ! i)\<lparr>pywebviewFullPath := Some (unquote h (snd (matching h n ps ! k)))\<rparr>
         else fs ! i)"
  using assms
proof (induction fs arbitrary: ps i)
  case Nil
  then show ?case by simp
next
  case (Cons f fs)
  show ?case
  proof (cases i)
    case 0
    then show ?thesis
      by (cases "matching h (file_name f) ps")
         (simp_all add: drop_loop_Cons_match drop_loop_Cons_no_match occurrences_def)
  next
    case (Suc j)
    with Cons.prems have j: "j < length fs" by simp
    show ?thesis
    proof (cases "matching h (file_name f) ps")
      case Nil
      then show ?thesis
        using Suc by (auto simp add: drop_loop_Cons_no_match Cons.IH [OF j] Let_def occurrences_def)
    next
      case (Cons e es)
      then show ?thesis
        using Suc
        by (auto simp add: drop_loop_Cons_match Cons.IH [OF j] matching_remove1_head Let_def occurrences_def)
    qed
  qed
qed

lemma length_drop_loop: "length (fst (drop_loop h fs ps)) = length fs"
proof (induction fs arbitrary: ps)
  case Nil
  then show ?case by simp
next
  case (Cons f fs)
  then show ?case
    by (cases "matching h (file_name f) ps")
       (simp_all add: drop_loop_Cons_match drop_loop_Cons_no_match)
qed

lemma event_intake_drop:
  assumes "elements w node_id = Some el"
    and "event_type ev = ''drop''"
    and "dataTransfer ev = Some dt"
    and "dt_files dt = Some fs"
  shows "js_bridge_call h w ''pywebviewEventHandler'' (EventPayload ev node_id) value_id =
     (None,
      w\<lparr>dnd_paths := snd (drop_loop h fs (dnd_paths w)),
        threads := threads w @
          map (\<lambda>handler. HandlerThread handler
                 (ev\<lparr>dataTransfer := Some (dt\<lparr>dt_files := Some (fst (drop_loop h fs (dnd_paths w)))\<rparr>)\<rparr>))
              (case event_handlers el ''drop'' of None \<Rightarrow> [] | Some hs \<Rightarrow> hs)\<rparr>)"
  using assms by (simp add: js_bridge_call_event event_intake_def Let_def split_beta)

text \<open>
  Claim C6, as stated, fails: the registry is a list and may hold two entries of the
  same decoded name; a drop consumes the first only. With the entries
  \<^verbatim>\<open>('a.txt', '/tmp/a.txt')\<close> and \<^verbatim>\<open>('a.txt', '/home/a.txt')\<close>, a second drop
  event that names \<^verbatim>\<open>a.txt\<close>, with no write of the native hook in between, does
  resolve a path: the second entry's.
\<close>

theorem second_drop_resolves_next_entry:
  "threads (snd (js_bridge_call example_host
       (snd (js_bridge_call example_host duplicate_world ''pywebviewEventHandler''
               (EventPayload (drop_event [''a.txt'']) ''node1'') []))
       ''pywebviewEventHandler'' (EventPayload (drop_event [''a.txt'']) ''node1'') [])) =
   [HandlerThread (PObj 40)
      \<lparr>event_type = ''drop'',
       dataTransfer = Some \<lparr>dt_files = Some [\<lparr>file_name = ''a.txt'', pywebviewFullPath = Some ''/tmp/a.txt''\<rparr>]\<rparr>\<rparr>,
    HandlerThread (PObj 40)
      \<lparr>event_type = ''drop'',
       dataTransfer = Some \<lparr>dt_files = Some [\<lparr>file_name = ''a.txt'', pywebviewFullPath = Some ''/home/a.txt''\<rparr>]\<rparr>\<rparr>]"
  by (simp add: js_bridge_call_event event_intake_def duplicate_world_def example_world_def
      example_host_def drop_event_def drop_loop.simps(2) matching_def Let_def)

text \<open>
  Claim C6, amended. For a drop event on a known element, the relay raises nothing and
  starts the handlers on the event with the file descriptors treated in order: the
  \<open>k\<close>-th file of a name receives the decoded path of the \<open>k\<close>-th registry
  entry whose decoded name is that name, and that entry is removed; a file for which no
  such entry is left is kept without a resolved path. So for each name the registry
  loses, from the front of its matching entries, as many as the event has files of the
  name. A file of a later drop event, with no write of the native hook in between, is
  left unresolved whenever the first event named it at least as often as the registry
  held entries of its name (in particular when the registry held one such entry).
\<close>

theorem drop_event_relay:
  assumes el: "elements w node_id = Some el"
    and ty: "event_type ev = ''drop''"
    and dt: "dataTransfer ev = Some dt"
    and fs: "dt_files dt = Some fs"
    and call: "js_bridge_call h w ''pywebviewEventHandler'' (EventPayload ev node_id) value_id = (err, w')"
  shows "err = None \<and>
    (\<exists>fs'. new_threads w w' =
              map (\<lambda>handler. HandlerThread handler (ev\<lparr>dataTransfer := Some (dt\<lparr>dt_files := Some fs'\<rparr>)\<rparr>))
                (case event_handlers el ''drop'' of None \<Rightarrow> [] | Some hs \<Rightarrow> hs) \<and>
            length fs' = length fs \<and>
            (\<forall>i < length fs.
               fs' ! i =
                 (if occurrences (file_name (fs ! i)) (take i fs) <
                       length (matching h (file_name (fs ! i)) (dnd_paths w))
                  then (fs ! i)\<lparr>pywebviewFullPath :=
                         Some (unquote h (snd (matching h (file_name (fs ! i)) (dnd_paths w) !
                                 occurrences (file_name (fs ! i)) (take i fs))))\<rparr>
                  else fs ! i))) \<and>
    (\<forall>n. matching h n (dnd_paths w') = drop (occurrences n fs) (matching h n (dnd_paths w))) \<and>
    (\<forall>gs. \<forall>j < length gs.
       length (matching h (file_name (gs ! j)) (dnd_paths w)) \<le> occurrences (file_name (gs ! j)) fs \<longrightarrow>
       fst (drop_loop h gs (dnd_paths w')) ! j = gs ! j)"
proof -
  let ?fs' = "fst (drop_loop h fs (dnd_paths w))"
  from event_intake_drop [OF el ty dt fs, of h value_id] call
  have err: "err = None"
    and w': "w' = w\<lparr>dnd_paths := snd (drop_loop h fs (dnd_paths w)),
        threads := threads w @
          map (\<lambda>handler. HandlerThread handler (ev\<lparr>dataTransfer := Some (dt\<lparr>dt_files := Some ?fs'\<rparr>)\<rparr>))
              (case event_handlers el ''drop'' of None \<Rightarrow> [] | Some hs \<Rightarrow> hs)\<rparr>"
    by simp_all
  have reg: "matching h n (dnd_paths w') = drop (occurrences n fs) (matching h n (dnd_paths w))" for n
    by (simp add: w' drop_loop_registry)
  have files: "new_threads w w' =
      map (\<lambda>handler. HandlerThread handler (ev\<lparr>dataTransfer := Some (dt\<lparr>dt_files := Some ?fs'\<rparr>)\<rparr>))
        (case event_handlers el ''drop'' of None \<Rightarrow> [] | Some hs \<Rightarrow> hs)"
    by (simp add: w' new_threads_def)
  have each: "\<forall>i < length fs. ?fs' ! i =
                 (if occurrences (file_name (fs ! i)) (take i fs) <
                       length (matching h (file_name (fs ! i)) (dnd_paths w))
                  then (fs ! i)\<lparr>pywebviewFullPath :=
                         Some (unquote h (snd (matching h (file_name (fs ! i)) (dnd_paths w) !
                                 occurrences (file_name (fs ! i)) (take i fs))))\<rparr>
                  else fs ! i)"
    by (simp add: drop_loop_file Let_def)
  have second: "fst (drop_loop h gs (dnd_paths w')) ! j = gs ! j"
    if "j < length gs"
      and "length (matching h (file_name (gs ! j)) (dnd_paths w)) \<le> occurrences (file_name (gs ! j)) fs"
    for gs j
    using that by (simp add: drop_loop_file [OF that(1)] Let_def reg)
  from err files each reg second show ?thesis
    using length_drop_loop [of h fs "dnd_paths w"] by blast
qed

theorem drop_event_relay_witness:
  "elements example_world ''node1'' = Some \<lparr>event_handlers = [''drop'' \<mapsto> [PObj 40]]\<rparr> \<and>
   event_type (drop_event [''a.txt'', ''b.txt'']) = ''drop'' \<and>
   dataTransfer (drop_event [''a.txt'', ''b.txt'']) =
     Some \<lparr>dt_files = Some [\<lparr>file_name = ''a.txt'', pywebviewFullPath = None\<rparr>,
                             \<lparr>file_name = ''b.txt'', pywebviewFullPath = None\<rparr>]\<rparr> \<and>
   js_bridge_call example_host example_world ''pywebviewEventHandler''
       (EventPayload (drop_event [''a.txt'', ''b.txt'']) ''node1'') [] =
     (None,
      example_world
        \<lparr>dnd_paths := [],
         threads :=
           [HandlerThread (PObj 40)
              \<lparr>event_type = ''drop'',
               dataTransfer =
                 Some \<lparr>dt_files = Some [\<lparr>file_name = ''a.txt'', pywebviewFullPath = Some ''/tmp/a.txt''\<rparr>,
                                         \<lparr>file_name = ''b.txt'', pywebviewFullPath = None\<rparr>]\<rparr>\<rparr>]\<rparr>) \<and>
   fst (drop_loop example_host [\<lparr>file_name = ''a.txt'', pywebviewFullPath = None\<rparr>] []) =
     [\<lparr>file_name = ''a.txt'', pywebviewFullPath = None\<rparr>]"
proof -
  let ?ev = "drop_event [''a.txt'', ''b.txt'']"
  let ?dt = "\<lparr>dt_files = Some [\<lparr>file_name = ''a.txt'', pywebviewFullPath = None\<rparr>,
                              \<lparr>file_name = ''b.txt'', pywebviewFullPath = None\<rparr>]\<rparr>"
  let ?w' = "example_world
        \<lparr>dnd_paths := [],
         threads :=
           [HandlerThread (PObj 40)
              \<lparr>event_type = ''drop'',
               dataTransfer =
                 Some \<lparr>dt_files = Some [\<lparr>file_name = ''a.txt'', pywebviewFullPath = Some ''/tmp/a.txt''\<rparr>,
                                         \<lparr>file_name = ''b.txt'', pywebviewFullPath = None\<rparr>]\<rparr>\<rparr>]\<rparr>"
  have el: "elements example_world ''node1'' = Some \<lparr>event_handlers = [''drop'' \<mapsto> [PObj 40]]\<rparr>"
    by (simp add: example_world_def)
  have ty: "event_type ?ev = ''drop''" and dt: "dataTransfer ?ev = Some ?dt"
    by (simp_all add: drop_event_def)
  have fs: "dt_files ?dt = Some [\<lparr>file_name = ''a.txt'', pywebviewFullPath = None\<rparr>,
                              \<lparr>file_name = ''b.txt'', pywebviewFullPath = None\<rparr>]"
    by simp
  have call: "js_bridge_call example_host example_world ''pywebviewEventHandler''
                (EventPayload ?ev ''node1'') [] = (None, ?w')"
    by (simp add: js_bridge_call_event event_intake_def example_world_def example_host_def
        drop_event_def drop_loop.simps(2) matching_def Let_def)
  have "fst (drop_loop example_host [\<lparr>file_name = ''a.txt'', pywebviewFullPath = None\<rparr>] []) =
     [\<lparr>file_name = ''a.txt'', pywebviewFullPath = None\<rparr>]"
    by (simp add: drop_loop.simps(2) matching_def)
  with drop_event_relay [OF el ty dt fs call] el ty dt call show ?thesis
    by simp
qed


section \<open>Properties of the stub generator\<close>

subsection \<open>The test for an earlier visit\<close>

lemma list_contains_False:
  "(list_contains h E obj = Inr False) = (\<forall>item \<in> set E. item \<noteq> obj \<and> py_eq h item obj = Inr False)"
  by (induction E) (auto split: sum.splits)

lemma list_contains_total:
  "\<forall>item \<in> set E. \<exists>equal. py_eq h item obj = Inr equal \<Longrightarrow> \<exists>seen. list_contains h E obj = Inr seen"
  by (induction E) (auto split: sum.splits)

lemma separated_snoc:
  "separated h (xs @ [y]) = (separated h xs \<and> (\<forall>x \<in> set xs. x \<noteq> y \<and> py_eq h x y = Inr False))"
  by (induction xs) auto

lemma separated_distinct: "separated h xs \<Longrightarrow> distinct xs"
  by (induction xs) auto

text \<open>Where equality is identity the test is membership.\<close>

lemma list_contains_identity:
  assumes "identity_eq h S" and "set E \<subseteq> S" and "obj \<in> S"
  shows "list_contains h E obj = Inr (obj \<in> set E)"
  using assms(2)
proof (induction E)
  case Nil
  then show ?case by simp
next
  case (Cons item E)
  then have "item \<in> S" by simp
  with assms(1,3) have "item \<noteq> obj \<Longrightarrow> py_eq h item obj = Inr False"
    by (simp add: identity_eq_def)
  with Cons show ?case by auto
qed

subsection \<open>Termination\<close>

lemma child_in_closed:
  assumes "closed_under h S" and "obj \<in> S" and "name \<in> set (dir_of h obj)"
    and "\<not> startswith name ''_''" and "py_getattr h obj name = Inr attr"
    and "\<not> py_ismethod h attr" and "recursive_attr h attr = Inr True"
  shows "attr \<in> S"
proof -
  from assms(5) have "attr_of h obj name = attr"
    by (simp add: attr_of_def)
  with assms(3,4,6,7) have "attr \<in> set (children h obj)"
    by (auto simp: children_def entered_def)
  with assms(1,2) show ?thesis
    by (auto simp: closed_under_def)
qed

lemma card_unexposed_mono:
  assumes "finite S" and "set E \<subseteq> set E'"
  shows "card (S - set E') \<le> card (S - set E)"
  using assms by (intro card_mono) auto

lemma card_unexposed_append:
  assumes "finite S" and "obj \<in> S" and "obj \<notin> set E" and "card (S - set E) < Suc d"
  shows "card (S - set (E @ [obj])) < d"
proof -
  have "S - set (E @ [obj]) = (S - set E) - {obj}" by auto
  moreover have "obj \<in> S - set E" using assms by simp
  moreover have "finite (S - set E)" using assms by simp
  ultimately have "card (S - set (E @ [obj])) = card (S - set E) - 1"
    by (simp add: card_Diff_singleton)
  moreover have "card (S - set E) > 0"
    using \<open>obj \<in> S - set E\<close> \<open>finite (S - set E)\<close> card_gt_0_iff by blast
  ultimately show ?thesis using assms(4) by linarith
qed

lemma walk_ok_Failed: "walk_ok h S st (Failed e)"
  by (simp add: walk_ok_def)

lemma walk_ok_DoneD:
  assumes "walk_ok h S st r"
  shows "(\<exists>e. r = Failed e) \<or>
         (\<exists>st'. r = Done st' \<and> separated h (fst st') \<and> set (fst st) \<subseteq> set (fst st') \<and>
                 set (fst st') \<subseteq> S)"
  using assms by (cases r) (auto simp: walk_ok_def)

lemma walk_ok_dict:
  "walk_ok h S (E, F') r \<Longrightarrow> walk_ok h S (E, F) r"
  by (cases r) (auto simp: walk_ok_def)

lemma loop_terminates:
  assumes fin: "finite S" and cl: "closed_under h S"
    and IH: "\<And>obj b st. obj \<in> S \<Longrightarrow> separated h (fst st) \<Longrightarrow> set (fst st) \<subseteq> S \<Longrightarrow>
               card (S - set (fst st)) < d \<Longrightarrow> walk_ok h S st (get_functions d h obj b st)"
    and obj: "obj \<in> S"
  shows "set names \<subseteq> set (dir_of h obj) \<Longrightarrow> separated h (fst st) \<Longrightarrow> set (fst st) \<subseteq> S \<Longrightarrow>
         card (S - set (fst st)) < d \<Longrightarrow>
         walk_ok h S st (get_functions_loop d h obj b names st)"
proof (induction names arbitrary: st)
  case Nil
  then show ?case by (simp add: walk_ok_def)
next
  case (Cons name names)
  obtain E F where st: "st = (E, F)" by (cases st)
  from Cons.prems have names: "set names \<subseteq> set (dir_of h obj)"
    and name: "name \<in> set (dir_of h obj)" by simp_all
  have same: "walk_ok h S (E, F) (get_functions_loop d h obj b names (E, F'))" for F'
    using Cons.IH [OF names, of "(E, F')"] Cons.prems(2-4)
    by (auto simp: st intro: walk_ok_dict)
  show ?case
  proof (cases "startswith name ''_''")
    case True
    then show ?thesis using same by (simp add: st)
  next
    case public: False
    show ?thesis
    proof (cases "py_getattr h obj name")
      case (Inl e)
      with public show ?thesis by (simp add: st walk_ok_Failed)
    next
      case (Inr attr)
      show ?thesis
      proof (cases "py_ismethod h attr")
        case True
        with public Inr same show ?thesis
          by (cases "get_args h attr") (simp_all add: st walk_ok_Failed)
      next
        case nometh: False
        show ?thesis
        proof (cases "recursive_attr h attr")
          case (Inl e)
          with public Inr nometh show ?thesis by (simp add: st walk_ok_Failed)
        next
          case rec: (Inr recurse)
          show ?thesis
          proof (cases recurse)
            case False
            with public Inr nometh rec same show ?thesis by (simp add: st)
          next
            case True
            with rec have "recursive_attr h attr = Inr True" by simp
            from child_in_closed [OF cl obj name public Inr nometh this] have "attr \<in> S" .
            from IH [OF this, of "(E, F)" "full_name_of b name"] Cons.prems(2-4)
            have ok: "walk_ok h S (E, F) (get_functions d h attr (full_name_of b name) (E, F))"
              by (simp add: st)
            from walk_ok_DoneD [OF ok] show ?thesis
            proof (elim disjE exE conjE)
              fix e
              assume "get_functions d h attr (full_name_of b name) (E, F) = Failed e"
              with public Inr nometh rec True show ?thesis
                by (simp add: st walk_ok_Failed)
            next
              fix st1
              assume r: "get_functions d h attr (full_name_of b name) (E, F) = Done st1"
                and s1: "separated h (fst st1)" and m1: "set (fst (E, F)) \<subseteq> set (fst st1)"
                and b1: "set (fst st1) \<subseteq> S"
              from m1 have m1': "set E \<subseteq> set (fst st1)" by simp
              have "card (S - set (fst st1)) \<le> card (S - set E)"
                using card_unexposed_mono [OF fin m1'] .
              with Cons.prems(4) have "card (S - set (fst st1)) < d" by (simp add: st)
              from Cons.IH [OF names s1 b1 this] m1'
              have "walk_ok h S (E, F) (get_functions_loop d h obj b names st1)"
                by (cases "get_functions_loop d h obj b names st1") (auto simp: walk_ok_def)
              with public Inr nometh rec True r show ?thesis by (simp add: st)
            qed
          qed
        qed
      qed
    qed
  qed
qed

lemma get_functions_terminates_aux:
  assumes fin: "finite S" and cl: "closed_under h S"
  shows "obj \<in> S \<Longrightarrow> separated h (fst st) \<Longrightarrow> set (fst st) \<subseteq> S \<Longrightarrow>
         card (S - set (fst st)) < d \<Longrightarrow> walk_ok h S st (get_functions d h obj b st)"
proof (induction d arbitrary: obj b st)
  case 0
  then show ?case by simp
next
  case (Suc d)
  obtain E F where st: "st = (E, F)" by (cases st)
  show ?case
  proof (cases "list_contains h E obj")
    case (Inl e)
    then show ?thesis by (simp add: st walk_ok_Failed)
  next
    case (Inr seen)
    show ?thesis
    proof (cases seen)
      case True
      with Inr Suc.prems show ?thesis by (simp add: st walk_ok_def)
    next
      case False
      with Inr have unseen: "\<forall>item \<in> set E. item \<noteq> obj \<and> py_eq h item obj = Inr False"
        by (simp add: list_contains_False)
      then have new: "obj \<notin> set E" by blast
      from unseen Suc.prems(2) have sep: "separated h (E @ [obj])"
        by (simp add: st separated_snoc)
      have c: "card (S - set (E @ [obj])) < d"
        using card_unexposed_append [OF fin Suc.prems(1) new] Suc.prems(4) by (simp add: st)
      show ?thesis
      proof (cases "py_dir h obj")
        case (Inl e)
        with Inr False show ?thesis by (simp add: st walk_ok_Failed)
      next
        case names: (Inr names)
        then have "set names \<subseteq> set (dir_of h obj)" by (simp add: dir_of_def)
        from loop_terminates [OF fin cl Suc.IH Suc.prems(1) this, of "(E @ [obj], F)" b]
          Suc.prems(1,3) sep c
        have "walk_ok h S (E @ [obj], F) (get_functions_loop d h obj b names (E @ [obj], F))"
          by (simp add: st)
        then have "walk_ok h S (E, F) (get_functions_loop d h obj b names (E @ [obj], F))"
          by (cases "get_functions_loop d h obj b names (E @ [obj], F)") (auto simp: walk_ok_def)
        with Inr False names show ?thesis by (simp add: st)
      qed
    qed
  qed
qed

subsection \<open>A walk on which introspection succeeds returns\<close>

lemma introspectableD:
  assumes "introspectable h S" and "obj \<in> S"
  shows "py_dir h obj = Inr (dir_of h obj)"
    and "item \<in> S \<Longrightarrow> \<exists>equal. py_eq h item obj = Inr equal"
    and "name \<in> set (dir_of h obj) \<Longrightarrow> \<not> startswith name ''_'' \<Longrightarrow>
         py_getattr h obj name = Inr (attr_of h obj name)"
    and "name \<in> set (dir_of h obj) \<Longrightarrow> \<not> startswith name ''_'' \<Longrightarrow>
         py_ismethod h (attr_of h obj name) \<Longrightarrow>
         get_args h (attr_of h obj name) = Inr (args_of h (attr_of h obj name))"
    and "name \<in> set (dir_of h obj) \<Longrightarrow> \<not> startswith name ''_'' \<Longrightarrow>
         \<not> py_ismethod h (attr_of h obj name) \<Longrightarrow>
         recursive_attr h (attr_of h obj name) = Inr (entered h (attr_of h obj name))"
proof -
  from assms have d: "\<exists>names. py_dir h obj = Inr names"
    and e: "\<forall>item \<in> S. \<exists>equal. py_eq h item obj = Inr equal"
    and a: "\<forall>name \<in> set (dir_of h obj). \<not> startswith name ''_'' \<longrightarrow>
           (\<exists>attr. py_getattr h obj name = Inr attr) \<and>
           (if py_ismethod h (attr_of h obj name)
            then \<exists>args. get_args h (attr_of h obj name) = Inr args
            else \<exists>recurse. recursive_attr h (attr_of h obj name) = Inr recurse)"
    unfolding introspectable_def by blast+
  from d show "py_dir h obj = Inr (dir_of h obj)"
    by (auto simp: dir_of_def)
  from e show "item \<in> S \<Longrightarrow> \<exists>equal. py_eq h item obj = Inr equal"
    by blast
  {
    assume n: "name \<in> set (dir_of h obj)" "\<not> startswith name ''_''"
    with a have g: "\<exists>attr. py_getattr h obj name = Inr attr"
      and r: "if py_ismethod h (attr_of h obj name)
            then \<exists>args. get_args h (attr_of h obj name) = Inr args
            else \<exists>recurse. recursive_attr h (attr_of h obj name) = Inr recurse"
      by blast+
    from g show "py_getattr h obj name = Inr (attr_of h obj name)"
      by (auto simp: attr_of_def)
    {
      assume "py_ismethod h (attr_of h obj name)"
      with r show "get_args h (attr_of h obj name) = Inr (args_of h (attr_of h obj name))"
        by (auto simp: args_of_def)
    }
    {
      assume "\<not> py_ismethod h (attr_of h obj name)"
      with r show "recursive_attr h (attr_of h obj name) = Inr (entered h (attr_of h obj name))"
        by (auto simp: entered_def)
    }
  }
qed

lemma loop_returns:
  assumes fin: "finite S" and cl: "closed_under h S" and ok: "introspectable h S"
    and IH: "\<And>obj b st. obj \<in> S \<Longrightarrow> separated h (fst st) \<Longrightarrow> set (fst st) \<subseteq> S \<Longrightarrow>
               card (S - set (fst st)) < d \<Longrightarrow> \<exists>st'. get_functions d h obj b st = Done st'"
    and obj: "obj \<in> S"
  shows "set names \<subseteq> set (dir_of h obj) \<Longrightarrow> separated h (fst st) \<Longrightarrow> set (fst st) \<subseteq> S \<Longrightarrow>
         card (S - set (fst st)) < d \<Longrightarrow>
         \<exists>st'. get_functions_loop d h obj b names st = Done st'"
proof (induction names arbitrary: st)
  case Nil
  then show ?case by simp
next
  case (Cons name names)
  obtain E F where st: "st = (E, F)" by (cases st)
  from Cons.prems have names: "set names \<subseteq> set (dir_of h obj)"
    and name: "name \<in> set (dir_of h obj)" by simp_all
  have same: "\<exists>st'. get_functions_loop d h obj b names (E, F') = Done st'" for F'
    using Cons.IH [OF names, of "(E, F')"] Cons.prems(2-4) by (simp add: st)
  show ?case
  proof (cases "startswith name ''_''")
    case True
    then show ?thesis using same by (simp add: st)
  next
    case public: False
    note attr = introspectableD(3) [OF ok obj name public]
    show ?thesis
    proof (cases "py_ismethod h (attr_of h obj name)")
      case True
      from introspectableD(4) [OF ok obj name public True] public attr True same
      show ?thesis by (simp add: st)
    next
      case nometh: False
      note rec = introspectableD(5) [OF ok obj name public nometh]
      show ?thesis
      proof (cases "entered h (attr_of h obj name)")
        case False
        with public attr nometh rec same show ?thesis by (simp add: st)
      next
        case True
        with rec have rec': "recursive_attr h (attr_of h obj name) = Inr True" by simp
        from child_in_closed [OF cl obj name public attr nometh rec']
        have inS: "attr_of h obj name \<in> S" .
        from IH [OF inS, of "(E, F)" "full_name_of b name"] Cons.prems(2-4)
        obtain st1 where r: "get_functions d h (attr_of h obj name) (full_name_of b name) (E, F) = Done st1"
          by (auto simp: st)
        from get_functions_terminates_aux [OF fin cl inS, of "(E, F)" d "full_name_of b name"]
          Cons.prems(2-4) r
        have s1: "separated h (fst st1)" and m1: "set E \<subseteq> set (fst st1)"
          and b1: "set (fst st1) \<subseteq> S"
          by (simp_all add: st walk_ok_def)
        have "card (S - set (fst st1)) \<le> card (S - set E)"
          using card_unexposed_mono [OF fin m1] .
        with Cons.prems(4) have "card (S - set (fst st1)) < d" by (simp add: st)
        from Cons.IH [OF names s1 b1 this] public attr nometh rec' r show ?thesis
          by (simp add: st)
      qed
    qed
  qed
qed

lemma get_functions_returns_aux:
  assumes fin: "finite S" and cl: "closed_under h S" and ok: "introspectable h S"
  shows "obj \<in> S \<Longrightarrow> separated h (fst st) \<Longrightarrow> set (fst st) \<subseteq> S \<Longrightarrow>
         card (S - set (fst st)) < d \<Longrightarrow> \<exists>st'. get_functions d h obj b st = Done st'"
proof (induction d arbitrary: obj b st)
  case 0
  then show ?case by simp
next
  case (Suc d)
  obtain E F where st: "st = (E, F)" by (cases st)
  from Suc.prems(3) have "\<forall>item \<in> set E. \<exists>equal. py_eq h item obj = Inr equal"
    using introspectableD(2) [OF ok Suc.prems(1)] by (auto simp: st)
  from list_contains_total [OF this] obtain seen where seen: "list_contains h E obj = Inr seen" ..
  show ?case
  proof (cases seen)
    case True
    with seen show ?thesis by (simp add: st)
  next
    case False
    with seen have unseen: "\<forall>item \<in> set E. item \<noteq> obj \<and> py_eq h item obj = Inr False"
      by (simp add: list_contains_False)
    then have new: "obj \<notin> set E" by blast
    from unseen Suc.prems(2) have sep: "separated h (E @ [obj])"
      by (simp add: st separated_snoc)
    have c: "card (S - set (E @ [obj])) < d"
      using card_unexposed_append [OF fin Suc.prems(1) new] Suc.prems(4) by (simp add: st)
    from loop_returns [OF fin cl ok Suc.IH Suc.prems(1), of "dir_of h obj" "(E @ [obj], F)" b]
      Suc.prems(1,3) sep c
    have "\<exists>st'. get_functions_loop d h obj b (dir_of h obj) (E @ [obj], F) = Done st'"
      by (simp add: st)
    with seen False introspectableD(1) [OF ok Suc.prems(1)] show ?thesis
      by (simp add: st)
  qed
qed

text \<open>
  Claim C4, as stated, fails in its last clause: the test for an earlier visit is
  \<^verbatim>\<open>obj in exposed_objects\<close>, which compares with \<^verbatim>\<open>==\<close>, not by identity. The
  attributes \<^verbatim>\<open>first\<close> and \<^verbatim>\<open>second\<close> of the API object are two objects that
  compare equal. The walk enters the first; the second is an object that the walk takes
  for one to enter and that is not in the list of visited objects, yet the test answers
  that it has been visited: it is never entered, and its method has no entry.
\<close>

theorem equal_object_taken_for_visited:
  "py_getattr equal_host (PObj 0) ''first'' = Inr (PObj 1) \<and>
   py_getattr equal_host (PObj 0) ''second'' = Inr (PObj 2) \<and>
   recursive_attr equal_host (PObj 2) = Inr True \<and>
   py_dir equal_host (PObj 2) = Inr [''m''] \<and>
   py_ismethod equal_host (PObj 15) \<and>
   py_getattr equal_host (PObj 2) ''m'' = Inr (PObj 15) \<and>
   PObj 2 \<notin> set [PObj 0, PObj 1] \<and>
   list_contains equal_host [PObj 0, PObj 1] (PObj 2) = Inr True \<and>
   get_functions 4 equal_host (PObj 0) [] ([], []) = Done ([PObj 0, PObj 1], [(''first.m'', [])])"
  by (simp add: numeral_eq_Suc equal_host_def example_host_def recursive_attr_def py_hasattr_def
      startswith_def full_name_of_def get_args_def)

text \<open>
  Claim C4, amended. On every exposed object graph (a finite set of objects closed under
  the attributes that the walk enters; shared references and cycles are allowed) the
  walk from an object of the graph ends as soon as the recursion depth at hand exceeds
  the number of objects: it does not use up the depth, and it returns unless a call on a
  host object raises; it returns when introspection succeeds on the graph. When it
  returns, the list \<^verbatim>\<open>exposed_objects\<close>, to which an object is appended each time its
  attributes are enumerated, has no repetition, so each object is visited at most once;
  moreover no object of the list compares equal to a later one. The test for an earlier
  visit is the membership test of the list, which is identity or equality with
  \<^verbatim>\<open>==\<close>: an object equal to a visited one is not entered.
\<close>

theorem get_functions_terminates:
  assumes "finite S" and "closed_under h S" and "obj \<in> S" and "card S < depth"
  shows "get_functions depth h obj base_name ([], []) \<noteq> TooDeep \<and>
         (\<forall>exposed fns. get_functions depth h obj base_name ([], []) = Done (exposed, fns) \<longrightarrow>
            distinct exposed \<and> separated h exposed \<and> set exposed \<subseteq> S) \<and>
         (introspectable h S \<longrightarrow>
            (\<exists>exposed fns. get_functions depth h obj base_name ([], []) = Done (exposed, fns)))"
proof (intro conjI allI impI)
  have ok: "walk_ok h S ([], []) (get_functions depth h obj base_name ([], []))"
    using get_functions_terminates_aux [OF assms(1,2,3), of "([], [])" depth base_name] assms(4)
    by simp
  then show "get_functions depth h obj base_name ([], []) \<noteq> TooDeep"
    by (auto simp: walk_ok_def)
  fix exposed fns
  assume "get_functions depth h obj base_name ([], []) = Done (exposed, fns)"
  with ok have s: "separated h exposed" and b: "set exposed \<subseteq> S"
    by (simp_all add: walk_ok_def)
  from s show "distinct exposed" by (rule separated_distinct)
  from s show "separated h exposed" .
  from b show "set exposed \<subseteq> S" .
next
  assume "introspectable h S"
  from get_functions_returns_aux [OF assms(1,2) this assms(3), of "([], [])" depth base_name] assms(4)
  show "\<exists>exposed fns. get_functions depth h obj base_name ([], []) = Done (exposed, fns)"
    by auto
qed

lemma cyclic_children:
  "children cyclic_host (PObj 0) = [PObj 1]" "children cyclic_host (PObj 1) = [PObj 0]"
  by (simp_all add: children_def entered_def dir_of_def attr_of_def cyclic_host_def example_host_def
      example_getattr_def recursive_attr_def py_hasattr_def startswith_def)

lemma cyclic_introspectable: "introspectable cyclic_host {PObj 0, PObj 1}"
  by (auto simp: introspectable_def dir_of_def attr_of_def cyclic_host_def example_host_def
      example_getattr_def recursive_attr_def py_hasattr_def startswith_def get_args_def)

theorem get_functions_terminates_witness:
  "finite {PObj 0, PObj 1} \<and> closed_under cyclic_host {PObj 0, PObj 1} \<and>
   card {PObj 0, PObj 1} < (3::nat) \<and> introspectable cyclic_host {PObj 0, PObj 1} \<and>
   py_getattr cyclic_host (PObj 0) ''sub'' = Inr (PObj 1) \<and>
   py_getattr cyclic_host (PObj 1) ''parent'' = Inr (PObj 0) \<and>
   get_functions 3 cyclic_host (PObj 0) [] ([], []) =
     Done ([PObj 0, PObj 1],
           [(''fail'', []), (''greet'', [''name'']), (''sub.hello'', [''a'', ''b''])]) \<and>
   distinct [PObj 0, PObj 1] \<and> separated cyclic_host [PObj 0, PObj 1]"
proof -
  have fin: "finite {PObj 0, PObj 1}" by simp
  have cl: "closed_under cyclic_host {PObj 0, PObj 1}"
    using cyclic_children by (simp add: closed_under_def)
  have obj: "PObj 0 \<in> {PObj 0, PObj 1}" by simp
  have c: "card {PObj 0, PObj 1} < (3::nat)" by simp
  have run: "get_functions 3 cyclic_host (PObj 0) [] ([], []) =
     Done ([PObj 0, PObj 1],
           [(''fail'', []), (''greet'', [''name'']), (''sub.hello'', [''a'', ''b''])])"
    by (simp add: numeral_3_eq_3 cyclic_host_def example_host_def example_getattr_def
        recursive_attr_def py_hasattr_def startswith_def full_name_of_def get_args_def)
  have attrs: "py_getattr cyclic_host (PObj 0) ''sub'' = Inr (PObj 1) \<and>
      py_getattr cyclic_host (PObj 1) ''parent'' = Inr (PObj 0)"
    by (simp add: cyclic_host_def example_host_def example_getattr_def)
  from get_functions_terminates [OF fin cl obj c, of "[]"] run
  have "distinct [PObj 0, PObj 1] \<and> separated cyclic_host [PObj 0, PObj 1]"
    by simp
  with fin cl c cyclic_introspectable attrs run show ?thesis
    by simp
qed

subsection \<open>The walk as a relation\<close>

text \<open>
  A run of \<^verbatim>\<open>get_functions\<close> that returns is a derivation of the annotated walk, when
  equality is identity on the objects met and their public attribute names are
  identifiers (so that the base name built by the code is the dotted form of the path).
\<close>

lemma get_functions_loop_walk:
  assumes cl: "closed_under h S" and ids: "identifiers_in h S" and eq: "identity_eq h S"
    and IH: "\<And>obj path V F st'. get_functions d h obj (dotted path) (map fst V, F) = Done st' \<Longrightarrow>
               obj \<in> S \<Longrightarrow> set (map fst V) \<subseteq> S \<Longrightarrow> \<forall>n \<in> set path. n \<noteq> [] \<Longrightarrow>
               \<exists>V'. map fst V' = fst st' \<and> set (fst st') \<subseteq> S \<and> walk h obj path (V, F) (V', snd st')"
    and obj: "obj \<in> S" and path: "\<forall>n \<in> set path. n \<noteq> []"
  shows "get_functions_loop d h obj (dotted path) names (map fst V, F) = Done st' \<Longrightarrow>
         set names \<subseteq> set (dir_of h obj) \<Longrightarrow> set (map fst V) \<subseteq> S \<Longrightarrow>
         \<exists>V'. map fst V' = fst st' \<and> set (fst st') \<subseteq> S \<and>
               walk_attrs h obj path names (V, F) (V', snd st')"
proof (induction names arbitrary: V F)
  case Nil
  then have "st' = (map fst V, F)" by simp
  with Nil.prems(3) show ?case using attrs_done [of h obj path "(V, F)"] by auto
next
  case (Cons name names)
  from Cons.prems have names: "set names \<subseteq> set (dir_of h obj)"
    and name: "name \<in> set (dir_of h obj)" by simp_all
  note inS = Cons.prems(3)
  let ?attr = "attr_of h obj name"
  have full: "full_name_of (dotted path) name = dotted (path @ [name])"
    using full_name_dotted [OF path] .
  show ?case
  proof (cases "startswith name ''_''")
    case True
    with Cons.prems(1) have "get_functions_loop d h obj (dotted path) names (map fst V, F) = Done st'"
      by simp
    from Cons.IH [OF this names inS] True show ?thesis
      by (auto intro: walk_walk_attrs.intros)
  next
    case public: False
    from Cons.prems(1) public obtain attr where got: "py_getattr h obj name = Inr attr"
      by (cases "py_getattr h obj name") auto
    then have attr: "attr = ?attr" by (simp add: attr_of_def)
    show ?thesis
    proof (cases "py_ismethod h ?attr")
      case meth: True
      from Cons.prems(1) public got attr meth obtain args where
        args: "get_args h ?attr = Inr args"
        by (cases "get_args h ?attr") auto
      then have "args = args_of h ?attr" by (simp add: args_of_def)
      with Cons.prems(1) public got attr meth args
      have "get_functions_loop d h obj (dotted path) names
          (map fst V, AList.update (dotted (path @ [name])) (tl (args_of h ?attr)) F) = Done st'"
        by (simp add: full)
      from Cons.IH [OF this names inS] public meth show ?thesis
        by (auto intro: walk_walk_attrs.intros)
    next
      case nometh: False
      from Cons.prems(1) public got attr nometh obtain recurse where
        rec: "recursive_attr h ?attr = Inr recurse"
        by (cases "recursive_attr h ?attr") auto
      show ?thesis
      proof (cases recurse)
        case False
        with rec have plain: "\<not> entered h ?attr" by (simp add: entered_def)
        from Cons.prems(1) public got attr nometh rec False
        have "get_functions_loop d h obj (dotted path) names (map fst V, F) = Done st'"
          by simp
        from Cons.IH [OF this names inS] public nometh plain show ?thesis
          by (auto intro: walk_walk_attrs.intros)
      next
        case True
        with rec have rec': "recursive_attr h ?attr = Inr True" by simp
        then have nested: "entered h ?attr" by (simp add: entered_def)
        from Cons.prems(1) public got attr nometh rec' obtain st1 where
          r1: "get_functions d h ?attr (dotted (path @ [name])) (map fst V, F) = Done st1"
          and r2: "get_functions_loop d h obj (dotted path) names st1 = Done st'"
          by (cases "get_functions d h ?attr (dotted (path @ [name])) (map fst V, F)")
             (auto simp: full)
        from got attr have got': "py_getattr h obj name = Inr ?attr" by simp
        have attrS: "?attr \<in> S"
          using child_in_closed [OF cl obj name public got' nometh rec'] .
        have "is_identifier name"
          using ids obj name public by (auto simp: identifiers_in_def)
        then have path': "\<forall>n \<in> set (path @ [name]). n \<noteq> []"
          using path by (auto simp: is_identifier_def)
        from IH [OF r1 attrS inS path'] obtain V1 where
          V1: "map fst V1 = fst st1" and S1: "set (fst st1) \<subseteq> S"
          and w1: "walk h ?attr (path @ [name]) (V, F) (V1, snd st1)"
          by blast
        from r2 V1 have r2': "get_functions_loop d h obj (dotted path) names (map fst V1, snd st1) = Done st'"
          by simp
        from S1 V1 have inS1: "set (map fst V1) \<subseteq> S" by simp
        from Cons.IH [OF r2' names inS1] obtain V' where
          "map fst V' = fst st'" and "set (fst st') \<subseteq> S"
          and "walk_attrs h obj path names (V1, snd st1) (V', snd st')"
          by blast
        with w1 public nometh nested show ?thesis
          by (auto intro: walk_walk_attrs.intros)
      qed
    qed
  qed
qed

lemma get_functions_walk:
  assumes cl: "closed_under h S" and ids: "identifiers_in h S" and eq: "identity_eq h S"
  shows "get_functions d h obj (dotted path) (map fst V, F) = Done st' \<Longrightarrow>
         obj \<in> S \<Longrightarrow> set (map fst V) \<subseteq> S \<Longrightarrow> \<forall>n \<in> set path. n \<noteq> [] \<Longrightarrow>
         \<exists>V'. map fst V' = fst st' \<and> set (fst st') \<subseteq> S \<and> walk h obj path (V, F) (V', snd st')"
proof (induction d arbitrary: obj path V F st')
  case 0
  then show ?case by simp
next
  case (Suc d)
  have seen: "list_contains h (map fst V) obj = Inr (obj \<in> set (map fst V))"
    using list_contains_identity [OF eq Suc.prems(3,2)] .
  show ?case
  proof (cases "obj \<in> set (map fst V)")
    case True
    with Suc.prems(1) seen have "st' = (map fst V, F)" by simp
    moreover from True have "obj \<in> fst ` set V" by simp
    then have "walk h obj path (V, F) (V, F)" by (rule walk_seen)
    ultimately show ?thesis using Suc.prems(3) by auto
  next
    case False
    with Suc.prems(1) seen obtain names where dir: "py_dir h obj = Inr names"
      by (cases "py_dir h obj") auto
    then have names: "names = dir_of h obj" by (simp add: dir_of_def)
    from Suc.prems(1) seen False dir names have
      run: "get_functions_loop d h obj (dotted path) (dir_of h obj) (map fst (V @ [(obj, path)]), F) = Done st'"
      by simp
    have inS: "set (map fst (V @ [(obj, path)])) \<subseteq> S"
      using Suc.prems(2,3) by simp
    from get_functions_loop_walk [OF cl ids eq Suc.IH Suc.prems(2,4) run _ inS]
    obtain V' where "map fst V' = fst st'" and "set (fst st') \<subseteq> S"
      and w: "walk_attrs h obj path (dir_of h obj) (V @ [(obj, path)], F) (V', snd st')"
      by blast
    moreover from False have "obj \<notin> fst ` set V" by simp
    then have "walk h obj path (V, F) (V', snd st')" using w by (rule walk_enter)
    ultimately show ?thesis by blast
  qed
qed


lemma set_update_subset: "set (AList.update k v al) \<subseteq> insert (k, v) (set al)"
  by (induction al) auto

lemma keys_update: "fst ` set (AList.update k v al) = insert k (fst ` set al)"
  by (simp add: dom_update)

lemma walk_mono:
  "walk h obj path st st' \<Longrightarrow>
     set (fst st) \<subseteq> set (fst st') \<and> fst ` set (snd st) \<subseteq> fst ` set (snd st') \<and>
     obj \<in> fst ` set (fst st')"
  "walk_attrs h obj path names st st' \<Longrightarrow>
     set (fst st) \<subseteq> set (fst st') \<and> fst ` set (snd st) \<subseteq> fst ` set (snd st')"
proof (induction rule: walk_walk_attrs.inducts)
  case (walk_seen obj V path F)
  then show ?case by simp
next
  case (walk_enter obj V path F st')
  then have "(obj, path) \<in> set (fst st')" by auto
  then have "obj \<in> fst ` set (fst st')" by force
  with walk_enter.IH show ?case by simp
next
  case (attrs_done obj path st)
  then show ?case by simp
next
  case (attrs_private name obj path names st st')
  then show ?case by simp
next
  case (attrs_method name obj path names V F st')
  then show ?case by (simp add: keys_update)
next
  case (attrs_object name obj path st st1 names st')
  from attrs_object.IH have "set (fst st) \<subseteq> set (fst st1)" "set (fst st1) \<subseteq> set (fst st')"
    "fst ` set (snd st) \<subseteq> fst ` set (snd st1)" "fst ` set (snd st1) \<subseteq> fst ` set (snd st')"
    by simp_all
  then show ?case by (meson order_trans)
next
  case (attrs_other name obj path names st st')
  then show ?case by simp
qed

lemma children_eq_via: "set (children h obj) = children_via h obj (dir_of h obj)"
  by (auto simp: children_def children_via_def)

lemma follow_snoc: "follow h obj (path @ [name]) = attr_of h (follow h obj path) name"
  by (simp add: follow_def)

subsection \<open>Invariants of the walk\<close>

lemma walk_distinct:
  "walk h obj path st st' \<Longrightarrow>
     (distinct (map fst (fst st)) \<longrightarrow> distinct (map fst (fst st'))) \<and>
     (distinct (map fst (snd st)) \<longrightarrow> distinct (map fst (snd st')))"
  "walk_attrs h obj path names st st' \<Longrightarrow>
     (distinct (map fst (fst st)) \<longrightarrow> distinct (map fst (fst st'))) \<and>
     (distinct (map fst (snd st)) \<longrightarrow> distinct (map fst (snd st')))"
proof (induction rule: walk_walk_attrs.inducts)
  case (walk_enter obj V path F st')
  then show ?case by simp
next
  case (attrs_method name obj path names V F st')
  then show ?case by (simp add: distinct_update)
qed simp_all

lemma method_nameI:
  assumes "name \<in> set (dir_of h obj)" and "\<not> startswith name ''_''"
    and "py_ismethod h (attr_of h obj name)"
  shows "name \<in> set (method_names h obj)"
  using assms by (simp add: method_names_def)

lemma sound_enter:
  assumes "sound h root (V, F)" and "follow h root path = obj"
    and "\<forall>name \<in> set path. is_identifier name"
  shows "sound h root (V @ [(obj, path)], F)"
  using assms unfolding sound_def by (fastforce simp: split_beta)

lemma sound_update:
  assumes s: "sound h root (V, F)" and v: "(obj, path) \<in> set V"
    and n: "name \<in> set (method_names h obj)"
  shows "sound h root
           (V, AList.update (dotted (path @ [name])) (tl (args_of h (attr_of h obj name))) F)"
proof -
  let ?k = "dotted (path @ [name])" and ?ps = "tl (args_of h (attr_of h obj name))"
  have "\<exists>(o', p) \<in> set V. \<exists>n' \<in> set (method_names h o').
           k = dotted (p @ [n']) \<and> ps = tl (args_of h (attr_of h o' n'))"
    if "(k, ps) \<in> set (AList.update ?k ?ps F)" for k ps
  proof (cases "(k, ps) = (?k, ?ps)")
    case True
    with v n show ?thesis by blast
  next
    case False
    with that set_update_subset [of ?k ?ps F] have "(k, ps) \<in> set F" by blast
    with s show ?thesis unfolding sound_def by fastforce
  qed
  with s show ?thesis unfolding sound_def by (simp add: split_beta)
qed

lemma walk_sound:
  assumes cl: "closed_under h S" and ids: "identifiers_in h S"
  shows
  "walk h obj path st st' \<Longrightarrow> obj \<in> S \<Longrightarrow> follow h root path = obj \<Longrightarrow>
     \<forall>name \<in> set path. is_identifier name \<Longrightarrow> sound h root st \<Longrightarrow> sound h root st'"
  "walk_attrs h obj path names st st' \<Longrightarrow> obj \<in> S \<Longrightarrow> set names \<subseteq> set (dir_of h obj) \<Longrightarrow>
     follow h root path = obj \<Longrightarrow> \<forall>name \<in> set path. is_identifier name \<Longrightarrow>
     (obj, path) \<in> set (fst st) \<Longrightarrow> sound h root st \<Longrightarrow> sound h root st'"
proof (induction rule: walk_walk_attrs.inducts)
  case (walk_seen obj V path F)
  then show ?case by simp
next
  case (walk_enter obj V path F st')
  from sound_enter [OF walk_enter.prems(4,2,3)] walk_enter.IH walk_enter.prems show ?case
    by simp
next
  case (attrs_done obj path st)
  then show ?case by simp
next
  case (attrs_private name obj path names st st')
  then show ?case by simp
next
  case (attrs_method name obj path names V F st')
  have "name \<in> set (method_names h obj)"
    using attrs_method.prems(2) \<open>\<not> startswith name ''_''\<close>
      \<open>py_ismethod h (attr_of h obj name)\<close>
    by (auto intro: method_nameI)
  from sound_update [OF attrs_method.prems(6) _ this, of path] attrs_method.prems
  have "sound h root
          (V, AList.update (dotted (path @ [name])) (tl (args_of h (attr_of h obj name))) F)"
    by simp
  with attrs_method.IH attrs_method.prems show ?case by simp
next
  case (attrs_object name obj path st st1 names st')
  let ?attr = "attr_of h obj name"
  have name: "name \<in> set (dir_of h obj)" and names: "set names \<subseteq> set (dir_of h obj)"
    using attrs_object.prems(2) by simp_all
  have inS: "?attr \<in> S"
    using cl attrs_object.prems(1) name \<open>\<not> startswith name ''_''\<close>
      \<open>\<not> py_ismethod h ?attr\<close> \<open>entered h ?attr\<close>
    by (auto simp: closed_under_def children_def)
  have "is_identifier name"
    using ids attrs_object.prems(1) name \<open>\<not> startswith name ''_''\<close>
    by (auto simp: identifiers_in_def)
  with attrs_object.prems(4) have p: "\<forall>n \<in> set (path @ [name]). is_identifier n" by simp
  have f: "follow h root (path @ [name]) = ?attr"
    using attrs_object.prems(3) by (simp add: follow_snoc)
  have s1: "sound h root st1"
    using attrs_object.IH inS f p attrs_object.prems(6) by blast
  from walk_mono(1) [OF \<open>walk h ?attr (path @ [name]) st st1\<close>] attrs_object.prems(5)
  have "(obj, path) \<in> set (fst st1)" by blast
  with attrs_object.IH attrs_object.prems(1) names attrs_object.prems(3,4) s1
  show ?case by blast
next
  case (attrs_other name obj path names st st')
  then show ?case by simp
qed

lemma children_via_Cons:
  "children_via h obj (name # names) =
     (if \<not> startswith name ''_'' \<and> \<not> py_ismethod h (attr_of h obj name) \<and>
         entered h (attr_of h obj name)
      then insert (attr_of h obj name) (children_via h obj names)
      else children_via h obj names)"
  by (auto simp: children_via_def)

lemma children_via_Nil: "children_via h obj [] = {}"
  by (simp add: children_via_def)

lemma method_names_public:
  "name \<in> set (method_names h obj) \<Longrightarrow>
     name \<in> set (dir_of h obj) \<and> \<not> startswith name ''_'' \<and> py_ismethod h (attr_of h obj name)"
  by (simp add: method_names_def)

lemma completeD:
  assumes "complete h P st" and "(x, p) \<in> set (fst st)" and "x \<notin> P"
  shows "(\<exists>path. (x, path) \<in> set (fst st) \<and>
            (\<forall>name \<in> set (method_names h x). dotted (path @ [name]) \<in> fst ` set (snd st))) \<and>
         set (children h x) \<subseteq> fst ` set (fst st)"
proof -
  from assms(2) have "x \<in> fst ` set (fst st)" by force
  with assms(1) have "x \<notin> P \<longrightarrow>
         (\<exists>path. (x, path) \<in> set (fst st) \<and>
            (\<forall>name \<in> set (method_names h x). dotted (path @ [name]) \<in> fst ` set (snd st))) \<and>
         set (children h x) \<subseteq> fst ` set (fst st)"
    unfolding complete_def by (rule bspec)
  from this assms(3) show ?thesis by (rule mp)
qed

lemma completeI:
  assumes "\<And>x p. (x, p) \<in> set (fst st) \<Longrightarrow> x \<notin> P \<Longrightarrow>
            (\<exists>path. (x, path) \<in> set (fst st) \<and>
               (\<forall>name \<in> set (method_names h x). dotted (path @ [name]) \<in> fst ` set (snd st))) \<and>
            set (children h x) \<subseteq> fst ` set (fst st)"
  shows "complete h P st"
  unfolding complete_def
proof (intro ballI impI)
  fix x
  assume "x \<in> fst ` set (fst st)" and xP: "x \<notin> P"
  then obtain p where "(x, p) \<in> set (fst st)" by auto
  from assms [OF this xP]
  show "(\<exists>path. (x, path) \<in> set (fst st) \<and>
            (\<forall>name \<in> set (method_names h x). dotted (path @ [name]) \<in> fst ` set (snd st))) \<and>
         set (children h x) \<subseteq> fst ` set (fst st)" .
qed

lemma complete_keys_mono:
  assumes c: "complete h P (V, F)" and k: "fst ` set F \<subseteq> fst ` set F'"
  shows "complete h P (V, F')"
proof (rule completeI)
  fix x p
  assume "(x, p) \<in> set (fst (V, F'))" and xP: "x \<notin> P"
  then have "(x, p) \<in> set (fst (V, F))" by simp
  from completeD [OF c this xP] obtain path where
    a: "(x, path) \<in> set V"
    and b: "\<forall>name \<in> set (method_names h x). dotted (path @ [name]) \<in> fst ` set F"
    and d: "set (children h x) \<subseteq> fst ` set V"
    by auto
  from b k have b': "\<forall>name \<in> set (method_names h x). dotted (path @ [name]) \<in> fst ` set F'"
    by (meson subsetD)
  show "(\<exists>path. (x, path) \<in> set (fst (V, F')) \<and>
            (\<forall>name \<in> set (method_names h x). dotted (path @ [name]) \<in> fst ` set (snd (V, F')))) \<and>
         set (children h x) \<subseteq> fst ` set (fst (V, F'))"
    using a b' d by (intro conjI exI [of _ path]) simp_all
qed

lemma complete_enter:
  assumes c: "complete h P (V, F)"
  shows "complete h (insert obj P) (V @ [(obj, path)], F)"
proof (rule completeI)
  fix x p
  assume "(x, p) \<in> set (fst (V @ [(obj, path)], F))" and xP: "x \<notin> insert obj P"
  then have "(x, p) \<in> set (fst (V, F))" and "x \<notin> P" by auto
  from completeD [OF c this] obtain q where
    a: "(x, q) \<in> set V"
    and b: "\<forall>name \<in> set (method_names h x). dotted (q @ [name]) \<in> fst ` set F"
    and d: "set (children h x) \<subseteq> fst ` set V"
    by auto
  from d have d': "set (children h x) \<subseteq> fst ` set (V @ [(obj, path)])"
    by auto
  show "(\<exists>path'. (x, path') \<in> set (fst (V @ [(obj, path)], F)) \<and>
            (\<forall>name \<in> set (method_names h x).
               dotted (path' @ [name]) \<in> fst ` set (snd (V @ [(obj, path)], F)))) \<and>
         set (children h x) \<subseteq> fst ` set (fst (V @ [(obj, path)], F))"
    using a b d' by (intro conjI exI [of _ q]) simp_all
qed

lemma complete_leave:
  assumes c: "complete h (insert obj P) st" and v: "(obj, path) \<in> set (fst st)"
    and m: "\<forall>name \<in> set (method_names h obj). dotted (path @ [name]) \<in> fst ` set (snd st)"
    and ch: "set (children h obj) \<subseteq> fst ` set (fst st)"
  shows "complete h P st"
proof (rule completeI)
  fix x p
  assume x: "(x, p) \<in> set (fst st)" and xP: "x \<notin> P"
  show "(\<exists>path. (x, path) \<in> set (fst st) \<and>
           (\<forall>name \<in> set (method_names h x). dotted (path @ [name]) \<in> fst ` set (snd st))) \<and>
        set (children h x) \<subseteq> fst ` set (fst st)"
  proof (cases "x = obj")
    case True
    with v m ch show ?thesis by (intro conjI exI [of _ path]) simp_all
  next
    case False
    with xP have "x \<notin> insert obj P" by simp
    from completeD [OF c x this] show ?thesis .
  qed
qed

lemma pending_names_step:
  assumes "\<forall>n \<in> set (method_names h obj). n \<in> set (name # names) \<or> Q n"
    and "name \<notin> set (method_names h obj)"
  shows "\<forall>n \<in> set (method_names h obj). n \<in> set names \<or> Q n"
  using assms by auto

lemma pending_names_mono:
  assumes "\<forall>n \<in> set (method_names h obj). n \<in> set names \<or> dotted (path @ [n]) \<in> K"
    and "K \<subseteq> K'"
  shows "\<forall>n \<in> set (method_names h obj). n \<in> set names \<or> dotted (path @ [n]) \<in> K'"
  using assms by (meson subsetD)

lemma walk_complete:
  "walk h obj path st st' \<Longrightarrow> complete h P st \<Longrightarrow> complete h P st'"
  "walk_attrs h obj path names st st' \<Longrightarrow> complete h (insert obj P) st \<Longrightarrow>
     (obj, path) \<in> set (fst st) \<Longrightarrow>
     \<forall>name \<in> set (method_names h obj).
        name \<in> set names \<or> dotted (path @ [name]) \<in> fst ` set (snd st) \<Longrightarrow>
     set (children h obj) \<subseteq> fst ` set (fst st) \<union> children_via h obj names \<Longrightarrow>
     complete h (insert obj P) st' \<and>
     (\<forall>name \<in> set (method_names h obj). dotted (path @ [name]) \<in> fst ` set (snd st')) \<and>
     set (children h obj) \<subseteq> fst ` set (fst st')"
proof (induction arbitrary: P and P rule: walk_walk_attrs.inducts)
  case (walk_seen obj V path F)
  then show ?case by simp
next
  case (walk_enter obj V path F st')
  have pre1: "complete h (insert obj P) (V @ [(obj, path)], F)"
    using complete_enter [OF walk_enter.prems] .
  have pre2: "(obj, path) \<in> set (fst (V @ [(obj, path)], F))" by simp
  have pre3: "\<forall>name \<in> set (method_names h obj).
        name \<in> set (dir_of h obj) \<or> dotted (path @ [name]) \<in> fst ` set (snd (V @ [(obj, path)], F))"
    by (simp add: method_names_public)
  have pre4: "set (children h obj) \<subseteq>
        fst ` set (fst (V @ [(obj, path)], F)) \<union> children_via h obj (dir_of h obj)"
    by (auto simp: children_eq_via)
  have post: "complete h (insert obj P) st' \<and>
     (\<forall>name \<in> set (method_names h obj). dotted (path @ [name]) \<in> fst ` set (snd st')) \<and>
     set (children h obj) \<subseteq> fst ` set (fst st')"
    using pre1 pre2 pre3 pre4 by (rule walk_enter.IH(2))
  from walk_mono(2) [OF \<open>walk_attrs h obj path (dir_of h obj) (V @ [(obj, path)], F) st'\<close>]
  have "(obj, path) \<in> set (fst st')" by auto
  with post show ?case using complete_leave [of h obj P st' path] by simp
next
  case (attrs_done obj path st)
  then show ?case by (simp add: children_via_Nil)
next
  case (attrs_private name obj path names st st')
  have "name \<notin> set (method_names h obj)"
    using \<open>startswith name ''_''\<close> method_names_public [of name h obj] by blast
  with attrs_private.prems(3)
  have a: "\<forall>n \<in> set (method_names h obj). n \<in> set names \<or> dotted (path @ [n]) \<in> fst ` set (snd st)"
    by (rule pending_names_step)
  have b: "set (children h obj) \<subseteq> fst ` set (fst st) \<union> children_via h obj names"
    using attrs_private.prems(4) \<open>startswith name ''_''\<close> by (simp add: children_via_Cons)
  from attrs_private.prems(1,2) a b show ?case by (rule attrs_private.IH(2))
next
  case (attrs_method name obj path names V F st')
  let ?F = "AList.update (dotted (path @ [name])) (tl (args_of h (attr_of h obj name))) F"
  have k: "fst ` set ?F = insert (dotted (path @ [name])) (fst ` set F)"
    by (rule keys_update)
  then have sub: "fst ` set F \<subseteq> fst ` set ?F" by blast
  have a: "complete h (insert obj P) (V, ?F)"
    using attrs_method.prems(1) sub by (rule complete_keys_mono)
  have b: "(obj, path) \<in> set (fst (V, ?F))"
    using attrs_method.prems(2) by simp
  have c: "\<forall>n \<in> set (method_names h obj).
      n \<in> set names \<or> dotted (path @ [n]) \<in> fst ` set (snd (V, ?F))"
    using attrs_method.prems(3) k by auto
  have d: "set (children h obj) \<subseteq> fst ` set (fst (V, ?F)) \<union> children_via h obj names"
    using attrs_method.prems(4) \<open>py_ismethod h (attr_of h obj name)\<close>
    by (simp add: children_via_Cons)
  from a b c d show ?case by (rule attrs_method.IH(3))
next
  case (attrs_object name obj path st st1 names st')
  let ?attr = "attr_of h obj name"
  note w1 = \<open>walk h ?attr (path @ [name]) st st1\<close>
  from walk_mono(1) [OF w1]
  have m: "set (fst st) \<subseteq> set (fst st1)" "fst ` set (snd st) \<subseteq> fst ` set (snd st1)"
    "?attr \<in> fst ` set (fst st1)"
    by simp_all
  have c1: "complete h (insert obj P) st1"
    using attrs_object.prems(1) by (rule attrs_object.IH(4))
  have p2: "(obj, path) \<in> set (fst st1)"
    using attrs_object.prems(2) m(1) by blast
  have "name \<notin> set (method_names h obj)"
    using \<open>\<not> py_ismethod h ?attr\<close> method_names_public [of name h obj] by blast
  with attrs_object.prems(3)
  have "\<forall>n \<in> set (method_names h obj). n \<in> set names \<or> dotted (path @ [n]) \<in> fst ` set (snd st)"
    by (rule pending_names_step)
  then have p3: "\<forall>n \<in> set (method_names h obj). n \<in> set names \<or> dotted (path @ [n]) \<in> fst ` set (snd st1)"
    using m(2) by (rule pending_names_mono)
  have sub: "fst ` set (fst st) \<subseteq> fst ` set (fst st1)"
    using m(1) by (rule image_mono)
  have e: "children_via h obj (name # names) \<subseteq> insert ?attr (children_via h obj names)"
    by (simp add: children_via_Cons subset_insertI)
  have p4: "set (children h obj) \<subseteq> fst ` set (fst st1) \<union> children_via h obj names"
  proof
    fix x
    assume "x \<in> set (children h obj)"
    with attrs_object.prems(4) have "x \<in> fst ` set (fst st) \<or> x \<in> children_via h obj (name # names)"
      by blast
    with e have "x \<in> fst ` set (fst st) \<or> x = ?attr \<or> x \<in> children_via h obj names"
      by blast
    with sub m(3) show "x \<in> fst ` set (fst st1) \<union> children_via h obj names"
      by blast
  qed
  from c1 p2 p3 p4 show ?case by (rule attrs_object.IH(6))
next
  case (attrs_other name obj path names st st')
  have "name \<notin> set (method_names h obj)"
    using \<open>\<not> py_ismethod h (attr_of h obj name)\<close> method_names_public [of name h obj] by blast
  with attrs_other.prems(3)
  have a: "\<forall>n \<in> set (method_names h obj). n \<in> set names \<or> dotted (path @ [n]) \<in> fst ` set (snd st)"
    by (rule pending_names_step)
  have b: "set (children h obj) \<subseteq> fst ` set (fst st) \<union> children_via h obj names"
    using attrs_other.prems(4) \<open>\<not> entered h (attr_of h obj name)\<close>
    by (simp add: children_via_Cons)
  from attrs_other.prems(1,2) a b show ?case by (rule attrs_other.IH(4))
qed

subsection \<open>Reachable objects and the merge of the registered functions\<close>

lemma reachable_root: "root \<in> reachable h root"
  by (simp add: reachable_def)

lemma reachable_closed: "closed_under h (reachable h root)"
  unfolding closed_under_def reachable_def
  by (auto intro: rtrancl_into_rtrancl)

lemma reachable_least:
  assumes "root \<in> T" and "\<forall>x \<in> T. set (children h x) \<subseteq> T"
  shows "reachable h root \<subseteq> T"
proof
  fix x
  assume "x \<in> reachable h root"
  then have "(root, x) \<in> {(a, b). b \<in> set (children h a)}\<^sup>*"
    by (simp add: reachable_def)
  then show "x \<in> T"
    using assms by (induction rule: rtrancl_induct) auto
qed

lemma map_of_dict_update:
  "map_of (dict_update d other) = map_of d ++ map_of (rev other)"
  unfolding dict_update_def
proof (induction other arbitrary: d)
  case Nil
  then show ?case by simp
next
  case (Cons x xs)
  obtain k v where x: "x = (k, v)" by (cases x)
  have "map_of (fold (\<lambda>(k, v). AList.update k v) (x # xs) d) =
        map_of (AList.update k v d) ++ map_of (rev xs)"
    using Cons.IH [of "AList.update k v d"] by (simp add: x)
  also have "\<dots> = map_of d ++ map_of (rev (x # xs))"
    by (simp add: x update_conv' map_add_def fun_eq_iff split: option.splits)
  finally show ?case .
qed

lemma distinct_dict_update:
  "distinct (map fst d) \<Longrightarrow> distinct (map fst (dict_update d other))"
  unfolding dict_update_def
  by (induction other arbitrary: d) (auto simp: distinct_update)

lemma map_of_rev_distinct:
  assumes "distinct (map fst xs)"
  shows "map_of (rev xs) = map_of xs"
proof -
  have "distinct (map fst (rev xs))"
    using assms by (simp add: rev_map [symmetric])
  then show ?thesis
    using assms by (simp add: map_of_inject_set)
qed

lemma expose_loop_keys: "expose_loop h items = Inr exposed \<Longrightarrow> map fst exposed = map fst items"
  by (induction h items arbitrary: exposed rule: expose_loop.induct) (auto split: sum.splits)

lemma keys_expose_functions:
  "expose_functions h w = Inr exposed \<Longrightarrow> map fst exposed = map fst (window_functions w)"
  by (simp add: expose_functions_def expose_loop_keys)

lemma expose_loop_returns:
  "\<forall>(name, f) \<in> set items. \<exists>args. get_args h f = Inr args \<Longrightarrow>
   expose_loop h items = Inr (map (\<lambda>(name, f). (name, args_of h f)) items)"
  by (induction h items rule: expose_loop.induct) (auto simp: args_of_def)

text \<open>
  An exception in the walk, or in reading the signature of a registered function,
  leaves the page with an empty catalog.
\<close>

lemma failing_walk_empties_catalog:
  assumes "get_functions depth h (js_api w) [] ([], []) = Failed e"
  shows "inject_func_list depth h w = ([], log w @ [LogException (exn_message e)])"
  using assms by (simp add: inject_func_list_def generate_func_def)

lemma failing_signature_empties_catalog:
  assumes "get_functions depth h (js_api w) [] ([], []) = Done st" and "expose_functions h w = Inl e"
  shows "inject_func_list depth h w = ([], log w @ [LogException (exn_message e)])"
  using assms by (cases st) (simp add: inject_func_list_def generate_func_def)

subsection \<open>The catalog\<close>

lemma sound_init: "sound h root ([], [])"
  by (simp add: sound_def)

lemma complete_init: "complete h {} ([], [])"
  by (simp add: complete_def)

lemma soundD_path:
  assumes "sound h root st" and "(x, p) \<in> set (fst st)"
  shows "follow h root p = x" and "\<forall>n \<in> set p. is_identifier n"
  using assms unfolding sound_def by auto

lemma soundD_entry:
  assumes "sound h root st" and "(k, ps) \<in> set (snd st)"
  shows "\<exists>x p n. (x, p) \<in> set (fst st) \<and> n \<in> set (method_names h x) \<and>
           k = dotted (p @ [n]) \<and> ps = tl (args_of h (attr_of h x n))"
proof -
  from assms have "\<exists>(x, p) \<in> set (fst st). \<exists>n \<in> set (method_names h x).
           k = dotted (p @ [n]) \<and> ps = tl (args_of h (attr_of h x n))"
    unfolding sound_def by blast
  then show ?thesis by blast
qed

text \<open>The reflective part of the catalog, for a walk from the root with empty state.\<close>

lemma reflective_catalog:
  assumes fin: "finite (reachable h root)"
    and depth: "card (reachable h root) < depth"
    and ids: "identifiers_in h (reachable h root)"
    and ok: "introspectable h (reachable h root)"
    and eq: "identity_eq h (reachable h root)"
  shows "\<exists>exposed fns.
     get_functions depth h root [] ([], []) = Done (exposed, fns) \<and>
     distinct exposed \<and> set exposed = reachable h root \<and>
     distinct (map fst fns) \<and>
     length fns = card (public_methods h root) \<and>
     (\<forall>(k, ps) \<in> set fns. \<exists>path name.
        k = dotted (path @ [name]) \<and> (follow h root path, name) \<in> public_methods h root \<and>
        ps = tl (args_of h (attr_of h (follow h root path) name)))"
proof -
  let ?S = "reachable h root"
  have cl: "closed_under h ?S" by (rule reachable_closed)
  have rootS: "root \<in> ?S" by (rule reachable_root)
  have wok: "walk_ok h ?S ([], []) (get_functions depth h root [] ([], []))"
    using get_functions_terminates_aux [OF fin cl rootS, of "([], [])" depth "[]"] depth by simp
  from get_functions_returns_aux [OF fin cl ok rootS, of "([], [])" depth "[]"] depth
  obtain E F where run: "get_functions depth h root [] ([], []) = Done (E, F)"
    by auto
  with wok have sE: "separated h E" and ES: "set E \<subseteq> ?S"
    by (simp_all add: walk_ok_def)
  from sE have dE: "distinct E" by (rule separated_distinct)
  have run': "get_functions depth h root (dotted []) (map fst [], []) = Done (E, F)"
    using run by simp
  have "\<exists>V'. map fst V' = fst (E, F) \<and> set (fst (E, F)) \<subseteq> ?S \<and>
          walk h root [] ([], []) (V', snd (E, F))"
    by (rule get_functions_walk [OF cl ids eq run' rootS]) simp_all
  then obtain V where VE: "map fst V = E" and w: "walk h root [] ([], []) (V, F)"
    by auto
  have snd: "sound h root (V, F)"
    using walk_sound(1) [OF cl ids w rootS _ _ sound_init] by (simp add: follow_def)
  have cmp: "complete h {} (V, F)"
    using walk_complete(1) [OF w complete_init] .
  have dF: "distinct (map fst F)"
    using walk_distinct(1) [OF w] by simp
  have dV: "distinct (map fst V)"
    using dE VE by simp
  have rootV: "root \<in> fst ` set V"
    using walk_mono(1) [OF w] by simp
  have objs: "fst ` set V = set E"
    using VE by (metis set_map)
  have closedV: "\<forall>x \<in> fst ` set V. set (children h x) \<subseteq> fst ` set V"
  proof
    fix x assume "x \<in> fst ` set V"
    then obtain p where "(x, p) \<in> set (fst (V, F))" by auto
    from completeD [OF cmp this] show "set (children h x) \<subseteq> fst ` set V" by simp
  qed
  have "?S \<subseteq> fst ` set V"
    using rootV closedV by (rule reachable_least)
  with ES objs have ES': "set E = ?S" by blast
  define \<beta> where "\<beta> = (\<lambda>x. the (map_of V x))"
  define g where "g = (\<lambda>(x, n). dotted (\<beta> x @ [n]))"
  have beta: "\<beta> x = p" if "(x, p) \<in> set V" for x p
    using that dV by (simp add: \<beta>_def)
  have inV: "(x, \<beta> x) \<in> set V" if "x \<in> ?S" for x
  proof -
    from that ES' objs have "x \<in> fst ` set V" by simp
    then obtain p where "(x, p) \<in> set V" by auto
    with beta show ?thesis by simp
  qed
  have name_id: "is_identifier n" if "x \<in> ?S" and "n \<in> set (method_names h x)" for x n
    using ids that method_names_public [of n h x] by (auto simp: identifiers_in_def)
  have keys_sub: "fst ` set F \<subseteq> g ` public_methods h root"
  proof
    fix k assume "k \<in> fst ` set F"
    then obtain ps where "(k, ps) \<in> set (snd (V, F))" by auto
    from soundD_entry [OF snd this] obtain x p n where
      xp: "(x, p) \<in> set V" and n: "n \<in> set (method_names h x)" and k: "k = dotted (p @ [n])"
      by auto
    from xp objs ES' have "x \<in> ?S" by force
    with n have "(x, n) \<in> public_methods h root" by (simp add: public_methods_def)
    moreover have "g (x, n) = k" using beta [OF xp] k by (simp add: g_def)
    ultimately show "k \<in> g ` public_methods h root" by force
  qed
  have keys_sup: "g ` public_methods h root \<subseteq> fst ` set F"
  proof
    fix k assume "k \<in> g ` public_methods h root"
    then obtain x n where xn: "(x, n) \<in> public_methods h root" and k: "k = g (x, n)" by auto
    then have xS: "x \<in> ?S" and n: "n \<in> set (method_names h x)"
      by (simp_all add: public_methods_def)
    from inV [OF xS] have "(x, \<beta> x) \<in> set (fst (V, F))" by simp
    from completeD [OF cmp this] obtain path where
      "(x, path) \<in> set V" and
      all: "\<forall>name \<in> set (method_names h x). dotted (path @ [name]) \<in> fst ` set F"
      by auto
    with beta have "path = \<beta> x" by simp
    with all n k show "k \<in> fst ` set F" by (simp add: g_def)
  qed
  have inj: "inj_on g (public_methods h root)"
  proof (rule inj_onI)
    fix a b
    assume a: "a \<in> public_methods h root" and b: "b \<in> public_methods h root" and eq: "g a = g b"
    obtain x n where a': "a = (x, n)" by (cases a)
    obtain y m where b': "b = (y, m)" by (cases b)
    from a a' have xS: "x \<in> ?S" and n: "n \<in> set (method_names h x)"
      by (simp_all add: public_methods_def)
    from b b' have yS: "y \<in> ?S" and m: "m \<in> set (method_names h y)"
      by (simp_all add: public_methods_def)
    from inV [OF xS] have vx: "(x, \<beta> x) \<in> set (fst (V, F))" by simp
    from inV [OF yS] have vy: "(y, \<beta> y) \<in> set (fst (V, F))" by simp
    note fx = soundD_path(1) [OF snd vx] and fy = soundD_path(1) [OF snd vy]
    have px: "\<forall>e \<in> set (\<beta> x @ [n]). CHR ''.'' \<notin> set e"
      using soundD_path(2) [OF snd vx] name_id [OF xS n]
      by (auto simp: is_identifier_def)
    have py: "\<forall>e \<in> set (\<beta> y @ [m]). CHR ''.'' \<notin> set e"
      using soundD_path(2) [OF snd vy] name_id [OF yS m]
      by (auto simp: is_identifier_def)
    from eq have deq: "dotted (\<beta> x @ [n]) = dotted (\<beta> y @ [m])"
      by (simp add: g_def a' b')
    have nx: "\<beta> x @ [n] \<noteq> []" and ny: "\<beta> y @ [m] \<noteq> []"
      by simp_all
    have app: "\<beta> x @ [n] = \<beta> y @ [m]"
      using deq nx ny px py by (rule dotted_inj)
    have bxy: "\<beta> x = \<beta> y"
      using app by (rule append1_eq_conv [THEN iffD1, THEN conjunct1])
    have nm: "n = m"
      using app by (rule append1_eq_conv [THEN iffD1, THEN conjunct2])
    have "x = follow h root (\<beta> x)" by (rule fx [symmetric])
    also have "\<dots> = follow h root (\<beta> y)" by (simp only: bxy)
    also have "\<dots> = y" by (rule fy)
    finally have "x = y" .
    with nm show "a = b" by (simp add: a' b')
  qed
  have "length F = length (map fst F)" by simp
  also have "\<dots> = card (set (map fst F))"
    using distinct_card [OF dF] by (rule sym)
  also have "set (map fst F) = g ` public_methods h root"
    using keys_sub keys_sup by auto
  also have "card (g ` public_methods h root) = card (public_methods h root)"
    using inj by (rule card_image)
  finally have len: "length F = card (public_methods h root)" .
  have entries: "\<forall>(k, ps) \<in> set F. \<exists>path name.
        k = dotted (path @ [name]) \<and> (follow h root path, name) \<in> public_methods h root \<and>
        ps = tl (args_of h (attr_of h (follow h root path) name))"
  proof (clarify)
    fix k ps assume "(k, ps) \<in> set F"
    then have "(k, ps) \<in> set (snd (V, F))" by simp
    from soundD_entry [OF snd this] obtain x p n where
      xp: "(x, p) \<in> set V" and n: "n \<in> set (method_names h x)" and k: "k = dotted (p @ [n])"
      and ps: "ps = tl (args_of h (attr_of h x n))"
      by auto
    from xp objs ES' have xS: "x \<in> ?S" by force
    have f: "follow h root p = x"
      using soundD_path(1) [OF snd, of x p] xp by simp
    with xS n have "(follow h root p, n) \<in> public_methods h root"
      by (simp add: public_methods_def)
    with k ps f show "\<exists>path name.
        k = dotted (path @ [name]) \<and> (follow h root path, name) \<in> public_methods h root \<and>
        ps = tl (args_of h (attr_of h (follow h root path) name))"
      by blast
  qed
  have "get_functions depth h root [] ([], []) = Done (E, F) \<and>
     distinct E \<and> set E = reachable h root \<and>
     distinct (map fst F) \<and>
     length F = card (public_methods h root) \<and>
     (\<forall>(k, ps) \<in> set F. \<exists>path name.
        k = dotted (path @ [name]) \<and> (follow h root path, name) \<in> public_methods h root \<and>
        ps = tl (args_of h (attr_of h (follow h root path) name)))"
    using run dE ES' dF len entries by - (intro conjI, assumption+)
  then show ?thesis by (intro exI [of _ E] exI [of _ F])
qed

lemma reachable_no_children:
  assumes "children h root = []"
  shows "reachable h root = {root}"
proof
  show "reachable h root \<subseteq> {root}"
    using assms by (intro reachable_least) simp_all
  show "{root} \<subseteq> reachable h root"
    by (simp add: reachable_root)
qed

lemma reachable_child:
  assumes "x \<in> reachable h root" and "y \<in> set (children h x)"
  shows "y \<in> reachable h root"
  using reachable_closed [of h root] assms by (auto simp: closed_under_def)

lemma identifiers_in_mono:
  assumes "identifiers_in h S" and "T \<subseteq> S"
  shows "identifiers_in h T"
  using assms unfolding identifiers_in_def by blast


text \<open>
  Claim C7, as stated, fails: the walk catalogs an attribute only when
  \<^verbatim>\<open>inspect.ismethod\<close> holds of it. On the (acyclic) graph of one API object with a
  bound method \<^verbatim>\<open>greet\<close> and a static method \<^verbatim>\<open>ping\<close>, there are two public
  callable attributes and the catalog has one entry.
\<close>

theorem static_method_not_in_catalog:
  "generate_func 2 static_host static_world = Done [(''greet'', [''name''])] \<and>
   public_callables static_host (js_api static_world) = {(PObj 0, ''greet''), (PObj 0, ''ping'')}"
proof -
  have c: "children static_host (PObj 0) = []"
    by (simp add: children_def entered_def dir_of_def attr_of_def static_host_def example_host_def
        recursive_attr_def py_hasattr_def startswith_def)
  have r: "reachable static_host (PObj 0) = {PObj 0}"
    using c by (rule reachable_no_children)
  have n: "callable_names static_host (PObj 0) = [''greet'', ''ping'']"
    by (simp add: callable_names_def dir_of_def attr_of_def static_host_def example_host_def
        startswith_def)
  have "public_callables static_host (PObj 0) = {(PObj 0, ''greet''), (PObj 0, ''ping'')}"
    by (auto simp: public_callables_def r n)
  moreover have "js_api static_world = PObj 0"
    by (simp add: static_world_def example_world_def)
  moreover have "generate_func 2 static_host static_world = Done [(''greet'', [''name''])]"
    by (simp add: generate_func_def numeral_2_eq_2 static_world_def example_world_def
        static_host_def example_host_def recursive_attr_def py_hasattr_def startswith_def
        full_name_of_def get_args_def dict_update_def expose_functions_def)
  ultimately show ?thesis by simp
qed


text \<open>
  Claim C7, amended. Let the objects reachable from the API object be finitely many
  (with or without cycles), fewer than the recursion depth at hand, and let their public
  attribute names be identifiers. Let no call of the walk raise on these objects, let
  no two of them compare equal, and let the signatures of the functions registered at
  run time be readable. Then the walk returns with exactly the reachable objects
  exposed; the reflective part of the catalog has distinct names, and its size is the
  number of pairs of a reachable object and a public attribute of it that is a bound
  method; each entry is named by the dotted path of such a method and carries its
  parameter names without the first, the receiver. The functions registered at run time
  (a dictionary, so with distinct names) are merged in afterwards: the names of the
  catalog are those of the reflective part and the registered names, no name of the
  reflective part is lost, and a registered name takes the registered function's
  parameter names. This catalog is the one handed to the page, and nothing is logged.
\<close>

theorem generate_func_catalog:
  assumes fin: "finite (reachable h (js_api w))"
    and depth: "card (reachable h (js_api w)) < depth"
    and ids: "identifiers_in h (reachable h (js_api w))"
    and ok: "introspectable h (reachable h (js_api w))"
    and eq: "identity_eq h (reachable h (js_api w))"
    and dis: "distinct (map fst (window_functions w))"
    and sigs: "\<forall>(name, f) \<in> set (window_functions w). \<exists>args. get_args h f = Inr args"
  shows "\<exists>exposed fns registered catalog.
     get_functions depth h (js_api w) [] ([], []) = Done (exposed, fns) \<and>
     expose_functions h w = Inr registered \<and>
     generate_func depth h w = Done catalog \<and>
     inject_func_list depth h w = (catalog, log w) \<and>
     set exposed = reachable h (js_api w) \<and>
     distinct (map fst fns) \<and>
     length fns = card (public_methods h (js_api w)) \<and>
     (\<forall>(k, ps) \<in> set fns. \<exists>path name.
        k = dotted (path @ [name]) \<and>
        (follow h (js_api w) path, name) \<in> public_methods h (js_api w) \<and>
        ps = tl (args_of h (attr_of h (follow h (js_api w) path) name))) \<and>
     registered = map (\<lambda>(name, f). (name, args_of h f)) (window_functions w) \<and>
     distinct (map fst catalog) \<and>
     set (map fst catalog) = set (map fst fns) \<union> set (map fst (window_functions w)) \<and>
     length catalog = card (set (map fst fns) \<union> set (map fst (window_functions w))) \<and>
     (\<forall>k. map_of catalog k =
        (case map_of registered k of Some ps \<Rightarrow> Some ps | None \<Rightarrow> map_of fns k))"
proof -
  from reflective_catalog [OF fin depth ids ok eq] obtain E F where
    run: "get_functions depth h (js_api w) [] ([], []) = Done (E, F)"
    and ES: "set E = reachable h (js_api w)"
    and dF: "distinct (map fst F)"
    and len: "length F = card (public_methods h (js_api w))"
    and entries: "\<forall>(k, ps) \<in> set F. \<exists>path name.
        k = dotted (path @ [name]) \<and>
        (follow h (js_api w) path, name) \<in> public_methods h (js_api w) \<and>
        ps = tl (args_of h (attr_of h (follow h (js_api w) path) name))"
    by blast
  let ?R = "map (\<lambda>(name, f). (name, args_of h f)) (window_functions w)"
  have reg: "expose_functions h w = Inr ?R"
    using expose_loop_returns [OF sigs] by (simp add: expose_functions_def)
  let ?C = "dict_update F ?R"
  have gen: "generate_func depth h w = Done ?C"
    by (simp add: generate_func_def run reg)
  have inj: "inject_func_list depth h w = (?C, log w)"
    by (simp add: inject_func_list_def gen)
  have dC: "distinct (map fst ?C)"
    using dF by (rule distinct_dict_update)
  have kR: "map fst ?R = map fst (window_functions w)"
    using keys_expose_functions [OF reg] .
  have "distinct (map fst ?R)"
    unfolding kR by (rule dis)
  then have m: "map_of ?C = map_of F ++ map_of ?R"
    by (simp add: map_of_dict_update map_of_rev_distinct)
  have look: "\<forall>k. map_of ?C k =
        (case map_of ?R k of Some ps \<Rightarrow> Some ps | None \<Rightarrow> map_of F k)"
    by (simp add: m map_add_def)
  have "set (map fst ?C) = dom (map_of ?C)"
    by (simp add: dom_map_of_conv_image_fst)
  also have "\<dots> = dom (map_of F) \<union> dom (map_of ?R)"
    by (auto simp: m)
  also have "\<dots> = set (map fst F) \<union> set (map fst ?R)"
    by (simp only: dom_map_of_conv_image_fst set_map)
  finally have keys: "set (map fst ?C) = set (map fst F) \<union> set (map fst (window_functions w))"
    by (simp only: kR)
  have "length ?C = length (map fst ?C)" by simp
  also have "\<dots> = card (set (map fst ?C))"
    using distinct_card [OF dC] by (rule sym)
  finally have size: "length ?C = card (set (map fst F) \<union> set (map fst (window_functions w)))"
    by (simp only: keys)
  have refl: "?R = map (\<lambda>(name, f). (name, args_of h f)) (window_functions w)" ..
  have "get_functions depth h (js_api w) [] ([], []) = Done (E, F) \<and>
     expose_functions h w = Inr ?R \<and>
     generate_func depth h w = Done ?C \<and>
     inject_func_list depth h w = (?C, log w) \<and>
     set E = reachable h (js_api w) \<and>
     distinct (map fst F) \<and>
     length F = card (public_methods h (js_api w)) \<and>
     (\<forall>(k, ps) \<in> set F. \<exists>path name.
        k = dotted (path @ [name]) \<and>
        (follow h (js_api w) path, name) \<in> public_methods h (js_api w) \<and>
        ps = tl (args_of h (attr_of h (follow h (js_api w) path) name))) \<and>
     ?R = map (\<lambda>(name, f). (name, args_of h f)) (window_functions w) \<and>
     distinct (map fst ?C) \<and>
     set (map fst ?C) = set (map fst F) \<union> set (map fst (window_functions w)) \<and>
     length ?C = card (set (map fst F) \<union> set (map fst (window_functions w))) \<and>
     (\<forall>k. map_of ?C k =
        (case map_of ?R k of Some ps \<Rightarrow> Some ps | None \<Rightarrow> map_of F k))"
    using run reg gen inj ES dF len entries refl dC keys size look
    by - (intro conjI, assumption+)
  then show ?thesis by (intro exI [of _ E] exI [of _ F] exI [of _ ?R] exI [of _ ?C])
qed

lemma ex_children:
  "children example_host (PObj 0) = [PObj 1]" "children example_host (PObj 1) = []"
  by (simp_all add: children_def entered_def dir_of_def attr_of_def example_host_def
      example_getattr_def recursive_attr_def py_hasattr_def startswith_def)

lemma ex_reach: "reachable example_host (PObj 0) = {PObj 0, PObj 1}"
proof (rule equalityI)
  show "reachable example_host (PObj 0) \<subseteq> {PObj 0, PObj 1}"
  proof (rule reachable_least)
    show "PObj 0 \<in> {PObj 0, PObj 1}" by simp
    show "\<forall>x \<in> {PObj 0, PObj 1}. set (children example_host x) \<subseteq> {PObj 0, PObj 1}"
      using ex_children by simp
  qed
  have "PObj 1 \<in> reachable example_host (PObj 0)"
    by (rule reachable_child [OF reachable_root]) (simp add: ex_children(1))
  then show "{PObj 0, PObj 1} \<subseteq> reachable example_host (PObj 0)"
    by (simp add: reachable_root)
qed

lemma ex_introspectable: "introspectable example_host {PObj 0, PObj 1}"
  by (auto simp: introspectable_def dir_of_def attr_of_def example_host_def
      example_getattr_def recursive_attr_def py_hasattr_def startswith_def get_args_def)

theorem generate_func_catalog_witness:
  "finite (reachable example_host (js_api example_world)) \<and>
   card (reachable example_host (js_api example_world)) < 3 \<and>
   identifiers_in example_host (reachable example_host (js_api example_world)) \<and>
   introspectable example_host (reachable example_host (js_api example_world)) \<and>
   identity_eq example_host (reachable example_host (js_api example_world)) \<and>
   distinct (map fst (window_functions example_world)) \<and>
   get_args example_host (PObj 20) = Inr [''x''] \<and>
   generate_func 3 example_host example_world =
     Done [(''fail'', []), (''greet'', [''name'']), (''sub.hello'', [''a'', ''b'']), (''adhoc'', [''x''])] \<and>
   inject_func_list 3 example_host example_world =
     ([(''fail'', []), (''greet'', [''name'']), (''sub.hello'', [''a'', ''b'']), (''adhoc'', [''x''])], []) \<and>
   card (public_methods example_host (PObj 0)) = 3"
proof -
  note r = ex_reach
  have api: "js_api example_world = PObj 0"
    by (simp add: example_world_def)
  have fin: "finite (reachable example_host (js_api example_world))"
    by (simp add: api r)
  have depth: "card (reachable example_host (js_api example_world)) < 3"
    by (simp add: api r)
  have ids: "identifiers_in example_host (reachable example_host (js_api example_world))"
    by (simp add: api r identifiers_in_def dir_of_def example_host_def is_identifier_def
        startswith_def)
  have ok: "introspectable example_host (reachable example_host (js_api example_world))"
    using ex_introspectable by (simp add: api r)
  have eq: "identity_eq example_host (reachable example_host (js_api example_world))"
    by (simp add: api r identity_eq_def example_host_def)
  have dis: "distinct (map fst (window_functions example_world))"
    by (simp add: example_world_def)
  have sigs: "\<forall>(name, f) \<in> set (window_functions example_world).
      \<exists>args. get_args example_host f = Inr args"
    by (simp add: example_world_def example_host_def get_args_def)
  have run: "get_functions 3 example_host (PObj 0) [] ([], []) =
     Done ([PObj 0, PObj 1],
           [(''fail'', []), (''greet'', [''name'']), (''sub.hello'', [''a'', ''b''])])"
    by (simp add: numeral_3_eq_3 example_host_def example_getattr_def
        recursive_attr_def py_hasattr_def startswith_def full_name_of_def get_args_def)
  have reg: "expose_functions example_host example_world = Inr [(''adhoc'', [''x''])]"
    by (simp add: expose_functions_def example_world_def example_host_def get_args_def)
  have gen: "generate_func 3 example_host example_world =
     Done [(''fail'', []), (''greet'', [''name'']), (''sub.hello'', [''a'', ''b'']), (''adhoc'', [''x''])]"
    by (simp add: generate_func_def api run reg dict_update_def)
  have l: "log example_world = []"
    by (simp add: example_world_def)
  from generate_func_catalog [OF fin depth ids ok eq dis sigs] obtain E F C where
    "get_functions 3 example_host (js_api example_world) [] ([], []) = Done (E, F)"
    and "generate_func 3 example_host example_world = Done C"
    and "inject_func_list 3 example_host example_world = (C, log example_world)"
    and "length F = card (public_methods example_host (js_api example_world))"
    by blast
  then have "card (public_methods example_host (PObj 0)) = 3 \<and>
    inject_func_list 3 example_host example_world =
     ([(''fail'', []), (''greet'', [''name'']), (''sub.hello'', [''a'', ''b'']), (''adhoc'', [''x''])], [])"
    by (auto simp: api run gen l)
  moreover have "get_args example_host (PObj 20) = Inr [''x'']"
    by (simp add: example_host_def get_args_def)
  ultimately show ?thesis
    using fin depth ids ok eq dis gen by simp
qed

end
